theory Spec2Isabelle
  imports Complex_Main
begin

section \<open>qdpdf: a quick and dirty PDF writer\<close>

text \<open>
  The module \<^verbatim>\<open>qdpdf.py\<close> (Python 2) writes JPEG images as the pages of a PDF file.
  A \<^verbatim>\<open>PDFWriter\<close> is handed an open file; every \<^verbatim>\<open>add_page\<close> appends three
  objects to it and \<^verbatim>\<open>close\<close> appends the catalog, the page list, the cross-reference
  table and the trailer. This theory embeds the class as functions on an explicit state
  and proves properties of the bytes it writes and of its bookkeeping.

  Python 2 byte strings are \<^typ>\<open>string\<close> (lists of 8-bit characters), exceptions are
  values of a datatype, and every method returns the exception it raised (if any)
  together with the state it left behind.
\<close>

subsection \<open>Exceptions\<close>

datatype error =
    ValueError string
  | RuntimeError string
  | AssertionError
  | IndexError
  | AttributeError
  | OverflowError
  | ZeroDivisionError

subsection \<open>Module constants\<close>

text \<open>\<^verbatim>\<open>SOI = '\xFF\xD8'\<close>, the JPEG start-of-image marker.\<close>

definition SOI :: string where
  "SOI = [CHR 0xFF, CHR 0xD8]"

definition SOI_size :: nat where
  "SOI_size = length SOI"

definition min_jpeg_len :: nat where
  "min_jpeg_len = 120"

definition buffer_size :: nat where
  "buffer_size = 16384"

subsection \<open>String formatting\<close>

text \<open>
  \<^verbatim>\<open>'%s' % n\<close> for an integer is its decimal numeral, with a minus sign when negative;
  \<^verbatim>\<open>'%010d' % n\<close> and \<^verbatim>\<open>'%05d' % n\<close> pad the numeral of a non-negative integer with
  zeros on the left up to the given width and never shorten it.
\<close>

definition digit_char :: "nat \<Rightarrow> char" where
  "digit_char d = ''0123456789'' ! d"

fun str_nat :: "nat \<Rightarrow> string" where
  "str_nat n = (if n < 10 then [digit_char n] else str_nat (n div 10) @ [digit_char (n mod 10)])"

declare str_nat.simps [simp del]

definition str_int :: "int \<Rightarrow> string" where
  "str_int i = (if i < 0 then CHR ''-'' # str_nat (nat (- i)) else str_nat (nat i))"

definition zero_pad :: "nat \<Rightarrow> nat \<Rightarrow> string" where
  "zero_pad width n = replicate (width - length (str_nat n)) CHR ''0'' @ str_nat n"

subsection \<open>Binary64 arithmetic\<close>

text \<open>
  \<^verbatim>\<open>_pixels_to_points\<close> computes in Python floats, which are IEEE 754 binary64 numbers
  with round-to-nearest, ties-to-even. A finite float is modelled by the rational number
  it denotes. \<open>round_double x\<close> is the float nearest to the exact value \<open>x\<close> for an
  unbounded exponent range above (the results that would be infinite are those with
  \<open>2 ^ 1024 \<le> \<bar>round_double x\<bar>\<close>) and with the gradual underflow of the format below
  (no exponent under \<open>-1074\<close>).
\<close>

definition pow2 :: "int \<Rightarrow> rat" where
  "pow2 e = power_int 2 e"

function bits :: "int \<Rightarrow> int" where
  "bits n = (if n \<le> 0 then 0 else 1 + bits (n div 2))"
  by pat_completeness auto
termination
  by (relation "measure nat") auto

declare bits.simps [simp del]

definition ilog2 :: "rat \<Rightarrow> int" where
  "ilog2 x = (let (a, b) = quotient_of x;
                  d = bits a - bits b
              in if pow2 d \<le> x then d else d - 1)"

definition round_half_even :: "rat \<Rightarrow> int" where
  "round_half_even x = (let f = \<lfloor>x\<rfloor>; d = x - of_int f
                        in if d < 1 / 2 then f
                           else if 1 / 2 < d then f + 1
                           else if even f then f else f + 1)"

definition round_pos :: "rat \<Rightarrow> rat" where
  "round_pos x = (let e = max (ilog2 x - 52) (- 1074)
                  in of_int (round_half_even (x / pow2 e)) * pow2 e)"

definition round_double :: "rat \<Rightarrow> rat" where
  "round_double x = (if x = 0 then 0 else if 0 < x then round_pos x else - round_pos (- x))"

definition is_inf :: "rat \<Rightarrow> bool" where
  "is_inf y \<longleftrightarrow> 2 ^ 1024 \<le> \<bar>y\<bar>"

text \<open>
  \<^verbatim>\<open>float(n)\<close>, and the implicit conversion of an integer operand of a float operation:
  the nearest float, \<^verbatim>\<open>OverflowError\<close> when that is out of range.
\<close>

definition float_of_int :: "int \<Rightarrow> error + rat" where
  "float_of_int n = (let y = round_double (of_int n)
                     in if is_inf y then Inl OverflowError else Inr y)"

text \<open>
  \<^verbatim>\<open>int(y)\<close> for a float truncates towards zero and raises \<^verbatim>\<open>OverflowError\<close> on an
  infinity.
\<close>

definition int_of_float :: "rat \<Rightarrow> error + int" where
  "int_of_float y = (if is_inf y then Inl OverflowError
                     else Inr (if 0 \<le> y then \<lfloor>y\<rfloor> else \<lceil>y\<rceil>))"

text \<open>
  \<^verbatim>\<open>return int(pixels / float(resolution) * 72)\<close>. Both operands of the division come
  from integers, so the divisor is zero or at least one in magnitude and the quotient
  cannot overflow; the product can, and then \<^verbatim>\<open>int\<close> raises.
\<close>

definition pixels_to_points :: "int \<Rightarrow> int \<Rightarrow> error + int" where
  "pixels_to_points pixels resolution =
     (case float_of_int resolution of
        Inl e \<Rightarrow> Inl e
      | Inr r \<Rightarrow>
          (case float_of_int pixels of
             Inl e \<Rightarrow> Inl e
           | Inr p \<Rightarrow>
               if r = 0 then Inl ZeroDivisionError
               else int_of_float (round_double (round_double (p / r) * 72))))"

subsection \<open>The writer's state\<close>

text \<open>
  The file object handed to \<^verbatim>\<open>PDFWriter(file)\<close> is an append-only sink: \<open>file_start\<close> is
  its position at that moment and \<open>file_data\<close> the bytes written to it since, so that
  \<^verbatim>\<open>tell()\<close> is \<open>file_start + length file_data\<close>. The file object outlives the writer's
  reference to it; \<open>file_open\<close> says that \<^verbatim>\<open>self._file\<close> is not \<^verbatim>\<open>None\<close>. The other
  fields are the attributes of the instance, the counters as natural numbers (they start
  at 0 or 1 and are only ever incremented). Writing and \<^verbatim>\<open>tell\<close> on the file itself are
  taken not to fail.
\<close>

record pdf =
  file_open :: bool
  file_start :: nat
  file_data :: string
  last_obj :: nat
  page_refs :: "nat list"
  obj_offsets :: "nat list"
  page_count :: nat
  xref_offset :: nat
  xref_size :: nat
  initial_offset :: nat
  catalog_ref :: "nat option"

text \<open>
  A statement or method call either completes or raises; in both cases it leaves a state.
  \<open>seq\<close> runs statements in order and stops at the first exception.
\<close>

type_synonym action = "pdf \<Rightarrow> error option \<times> pdf"

fun seq :: "action list \<Rightarrow> action" where
  "seq [] s = (None, s)"
| "seq (a # as) s = (case a s of (None, s') \<Rightarrow> seq as s' | (Some e, s') \<Rightarrow> (Some e, s'))"

definition assert_that :: "(pdf \<Rightarrow> bool) \<Rightarrow> action" where
  "assert_that c s = (if c s then (None, s) else (Some AssertionError, s))"

definition file_tell :: "pdf \<Rightarrow> nat" where
  "file_tell s = file_start s + length (file_data s)"

text \<open>\<^verbatim>\<open>self._file.write(data)\<close>; \<^verbatim>\<open>None\<close> has no such attribute.\<close>

definition file_write :: "string \<Rightarrow> action" where
  "file_write data s =
     (if file_open s then (None, s\<lparr>file_data := file_data s @ data\<rparr>)
      else (Some AttributeError, s))"

subsection \<open>The private methods\<close>

definition check_closed :: action where
  "check_closed s = (if \<not> file_open s then (Some (RuntimeError ''PDF closed.''), s) else (None, s))"

definition save_offset :: action where
  "save_offset =
     seq [check_closed,
          (\<lambda>s. (None, s\<lparr>obj_offsets := obj_offsets s @ [file_tell s]\<rparr>))]"

definition writeln :: "string \<Rightarrow> action" where
  "writeln data = seq [check_closed, file_write data, file_write [CHR 0x0A]]"

definition write_obj :: "nat \<Rightarrow> action" where
  "write_obj ref = writeln (str_nat ref @ '' 0 obj'')"

definition write_endobj :: action where
  "write_endobj = writeln ''endobj''"

definition write_page :: "nat \<Rightarrow> nat \<Rightarrow> nat \<Rightarrow> int \<Rightarrow> int \<Rightarrow> action" where
  "write_page ref image_ref contents_ref width_pt height_pt =
     seq [save_offset,
          write_obj ref,
          writeln (''<</Type /Page /Parent 1 0 R /Contents '' @ str_nat contents_ref @ '' 0 R''),
          writeln (''/Resources <</ProcSet [ /PDF /ImageC ] /XObject <</image ''
                   @ str_nat image_ref @ '' 0 R>> >>''),
          writeln (''/MediaBox [0 0 '' @ str_int width_pt @ '' '' @ str_int height_pt @ '']>>''),
          write_endobj]"

text \<open>
  A file-like JPEG source: its bytes and its current position. \<^verbatim>\<open>read(n)\<close> returns at
  most \<open>n\<close> bytes from the position on and advances it; at the end it returns the empty
  string.
\<close>

record jpeg_file =
  content :: string
  pos :: nat

definition file_read :: "nat \<Rightarrow> jpeg_file \<Rightarrow> string \<times> jpeg_file" where
  "file_read n f =
     (let chunk = take n (drop (pos f) (content f))
      in (chunk, f\<lparr>pos := pos f + length chunk\<rparr>))"

definition file_seek :: "nat \<Rightarrow> jpeg_file \<Rightarrow> jpeg_file" where
  "file_seek n f = f\<lparr>pos := n\<rparr>"

definition file_seek_end :: "jpeg_file \<Rightarrow> jpeg_file" where
  "file_seek_end f = f\<lparr>pos := length (content f)\<rparr>"

text \<open>\<^verbatim>\<open>jpegdata\<close> is a string or a readable file-like object.\<close>

datatype jpegdata = Str string | File jpeg_file

text \<open>
  \<^verbatim>\<open>for chunk in iter(lambda: jpegdata.read(buffer_size), ''): self._file.write(chunk)\<close>
\<close>

function copy_chunks :: "jpeg_file \<Rightarrow> action" where
  "copy_chunks f s =
     (case file_read buffer_size f of
        (chunk, f') \<Rightarrow>
          if chunk = [] then (None, s)
          else (case file_write chunk s of
                  (None, s') \<Rightarrow> copy_chunks f' s'
                | (Some e, s') \<Rightarrow> (Some e, s')))"
  by pat_completeness auto
termination
  by (relation "measure (\<lambda>(f, s). length (content f) - pos f)")
     (auto simp: file_read_def Let_def buffer_size_def)

declare copy_chunks.simps [simp del]

definition write_image :: "nat \<Rightarrow> int \<Rightarrow> int \<Rightarrow> string \<Rightarrow> jpegdata \<Rightarrow> nat \<Rightarrow> action" where
  "write_image ref width_px height_px colorspace jpegdata data_len =
     seq [save_offset,
          write_obj ref,
          writeln (''<</Type /XObject /Subtype /Image /Width '' @ str_int width_px
                   @ '' /Height '' @ str_int height_px @ '' /ColorSpace '' @ colorspace),
          writeln (''/BitsPerComponent 8 /Filter /DCTDecode /Length '' @ str_nat data_len
                   @ ''>> stream''),
          (case jpegdata of
             File f \<Rightarrow> seq [copy_chunks f, writeln []]
           | Str d \<Rightarrow> writeln d),
          writeln ''endstream'',
          write_endobj]"

definition write_contents :: "nat \<Rightarrow> int \<Rightarrow> int \<Rightarrow> action" where
  "write_contents ref width_pt height_pt =
     (let page_contents = ''q '' @ str_int width_pt @ '' 0 0 '' @ str_int height_pt
                          @ '' 0 0 cm /image Do Q ''
      in seq [save_offset,
              write_obj ref,
              writeln (''<</Length '' @ str_nat (length page_contents) @ ''>> stream''),
              writeln page_contents,
              writeln ''endstream'',
              write_endobj])"

definition write_catalog :: "nat \<Rightarrow> action" where
  "write_catalog ref =
     seq [save_offset,
          write_obj ref,
          writeln ''<</Type /Catalog /Pages 1 0 R>>'',
          write_endobj,
          (\<lambda>s. (None, s\<lparr>catalog_ref := Some ref\<rparr>))]"

text \<open>\<^verbatim>\<open>self.obj_offsets[1] = self._file.tell()\<close> raises on a list shorter than two.\<close>

definition set_page_list_offset :: action where
  "set_page_list_offset s =
     (if length (obj_offsets s) < 2 then (Some IndexError, s)
      else (None, s\<lparr>obj_offsets := (obj_offsets s)[1 := file_tell s]\<rparr>))"

definition write_page_list :: action where
  "write_page_list =
     seq [check_closed,
          assert_that (\<lambda>s. page_count s \<ge> 1),
          assert_that (\<lambda>s. page_count s = length (page_refs s)),
          (\<lambda>s. let page_refs_str =
                      concat (map (\<lambda>page_ref. str_nat page_ref @ '' 0 R '') (page_refs s))
                in seq [set_page_list_offset,
                        write_obj 1,
                        writeln (''<</Type /Pages /Count '' @ str_nat (page_count s)
                                 @ '' /Kids ['' @ page_refs_str @ '']>>''),
                        write_endobj] s)]"

definition xref_entry :: "nat \<Rightarrow> nat \<Rightarrow> action" where
  "xref_entry init offset =
     (let (revision, status) = (if offset = init then (65535, ''f'') else (0, ''n''))
      in writeln (zero_pad 10 offset @ '' '' @ zero_pad 5 revision @ '' '' @ status @ '' ''))"

definition write_xref :: action where
  "write_xref =
     seq [check_closed,
          (\<lambda>s. (None, s\<lparr>xref_offset := file_tell s, xref_size := last_obj s + 1\<rparr>)),
          assert_that (\<lambda>s. xref_size s \<ge> 6),
          assert_that (\<lambda>s. xref_size s = length (obj_offsets s)),
          writeln ''xref'',
          (\<lambda>s. writeln (''0 '' @ str_nat (xref_size s)) s),
          (\<lambda>s. seq (map (xref_entry (initial_offset s)) (obj_offsets s)) s)]"

text \<open>The token of \<^verbatim>\<open>uuid.uuid4()\<close> is a parameter.\<close>

definition write_trailer :: "nat \<Rightarrow> string \<Rightarrow> action" where
  "write_trailer catalog uid =
     seq [assert_that (\<lambda>s. 0 \<notin> {xref_offset s, xref_size s, catalog}),
          (\<lambda>s. writeln (''trailer <</Size '' @ str_nat (xref_size s) @ '' /Root ''
                         @ str_nat catalog @ '' 0 R /ID [('' @ uid @ '')('' @ uid @ '')]>>'') s),
          (\<lambda>s. writeln (''startxref '' @ str_nat (xref_offset s)) s),
          writeln ''%%EOF'']"

subsection \<open>The public methods\<close>

text \<open>
  \<^verbatim>\<open>__init__\<close>, for a file at position \<open>start\<close>. The second line of the preamble is the
  literal \<^verbatim>\<open>'%\xFF...\0'\<close> whose middle three characters are stored in the source file
  as the bytes C3 A7 each.
\<close>

definition init :: "nat \<Rightarrow> error option \<times> pdf" where
  "init start =
     seq [save_offset,
          (\<lambda>s. (None, s\<lparr>initial_offset := obj_offsets s ! 0\<rparr>)),
          (\<lambda>s. (None, s\<lparr>obj_offsets := obj_offsets s @ [8]\<rparr>)),
          writeln ''%PDF-1.2'',
          writeln [CHR ''%'', CHR 0xFF, CHR 0xC3, CHR 0xA7, CHR 0xC3, CHR 0xA7, CHR 0xC3, CHR 0xA7,
                   CHR 0x00]]
       \<lparr>file_open = True, file_start = start, file_data = [], last_obj = 1, page_refs = [],
        obj_offsets = [], page_count = 0, xref_offset = 0, xref_size = 0, initial_offset = 0,
        catalog_ref = None\<rparr>"

text \<open>
  \<^verbatim>\<open>add_page\<close>, its numeric arguments already integers and \<^verbatim>\<open>grayscale\<close> a truth value.
  For a file-like source the marker is read at position 0 and the length is the position
  of the end; the source is left at position 0 for the copy.
\<close>

definition add_page :: "jpegdata \<Rightarrow> int \<Rightarrow> int \<Rightarrow> int \<Rightarrow> bool \<Rightarrow> action" where
  "add_page jpegdata width_px height_px resolution grayscale s =
     (let (read_soi, data_len, jpegdata') =
            (case jpegdata of
               Str d \<Rightarrow> (take SOI_size d, length d, Str d)
             | File f \<Rightarrow>
                 (let (read_soi, f1) = file_read SOI_size (file_seek 0 f);
                      f2 = file_seek_end f1
                  in (read_soi, pos f2, File (file_seek 0 f2))))
      in if read_soi \<noteq> SOI then (Some (ValueError ''Invalid image data.''), s)
         else if data_len < min_jpeg_len then (Some (ValueError ''Invalid image length.''), s)
         else if width_px < 1 then (Some (ValueError ''Invalid image width.''), s)
         else if height_px < 1 then (Some (ValueError ''Invalid image height.''), s)
         else if resolution < 1 then (Some (ValueError ''Invalid image resolution.''), s)
         else
           (let page_ref = last_obj s + 1;
                image_ref = page_ref + 1;
                contents_ref = image_ref + 1;
                s1 = s\<lparr>last_obj := contents_ref,
                       page_refs := page_refs s @ [page_ref],
                       page_count := page_count s + 1\<rparr>
            in case pixels_to_points width_px resolution of
                 Inl e \<Rightarrow> (Some e, s1)
               | Inr width_pt \<Rightarrow>
                   (case pixels_to_points height_px resolution of
                      Inl e \<Rightarrow> (Some e, s1)
                    | Inr height_pt \<Rightarrow>
                        (let colorspace = (if grayscale then ''/DeviceGray'' else ''/DeviceRGB'')
                         in seq [write_page page_ref image_ref contents_ref width_pt height_pt,
                                 write_image image_ref width_px height_px colorspace jpegdata'
                                   data_len,
                                 write_contents contents_ref width_pt height_pt] s1))))"

definition close :: "string \<Rightarrow> action" where
  "close uid s =
     (if page_count s < 1 then (Some (RuntimeError ''No pages added to PDF.''), s)
      else
        (let catalog = last_obj s + 1;
             s1 = s\<lparr>last_obj := catalog\<rparr>
         in seq [write_catalog catalog,
                 write_page_list,
                 write_xref,
                 write_trailer catalog uid,
                 (\<lambda>s. (None, s\<lparr>file_open := False\<rparr>))] s1))"

subsection \<open>Sequences of calls\<close>

datatype call = Add_page jpegdata int int int bool | Close string

fun do_call :: "call \<Rightarrow> action" where
  "do_call (Add_page d w h r g) = add_page d w h r g"
| "do_call (Close uid) = close uid"

text \<open>
  A caller that catches exceptions and carries on: every call runs on the state the
  previous one left, and the outcomes are collected.
\<close>

fun run :: "call list \<Rightarrow> pdf \<Rightarrow> error option list \<times> pdf" where
  "run [] s = ([], s)"
| "run (c # cs) s =
     (case do_call c s of (r, s') \<Rightarrow> (case run cs s' of (rs, s'') \<Rightarrow> (r # rs, s'')))"

subsection \<open>The bytes of the objects\<close>

text \<open>
  Every line is written by \<^verbatim>\<open>_writeln\<close>: the data and a line feed. An object is its
  header line \<^verbatim>\<open>ref 0 obj\<close>, the lines of its body and the line \<^verbatim>\<open>endobj\<close>.
\<close>

definition line :: "string \<Rightarrow> string" where
  "line d = d @ [CHR 0x0A]"

definition obj_text :: "nat \<Rightarrow> string list \<Rightarrow> string" where
  "obj_text ref body = concat (map line ((str_nat ref @ '' 0 obj'') # body @ [''endobj'']))"

definition page_body :: "nat \<Rightarrow> nat \<Rightarrow> int \<Rightarrow> int \<Rightarrow> string list" where
  "page_body image_ref contents_ref width_pt height_pt =
     [''<</Type /Page /Parent 1 0 R /Contents '' @ str_nat contents_ref @ '' 0 R'',
      ''/Resources <</ProcSet [ /PDF /ImageC ] /XObject <</image '' @ str_nat image_ref
        @ '' 0 R>> >>'',
      ''/MediaBox [0 0 '' @ str_int width_pt @ '' '' @ str_int height_pt @ '']>>'']"

definition jpeg_bytes :: "jpegdata \<Rightarrow> string" where
  "jpeg_bytes j = (case j of Str d \<Rightarrow> d | File f \<Rightarrow> content f)"

definition image_body :: "int \<Rightarrow> int \<Rightarrow> string \<Rightarrow> string \<Rightarrow> string list" where
  "image_body width_px height_px colorspace d =
     [''<</Type /XObject /Subtype /Image /Width '' @ str_int width_px
        @ '' /Height '' @ str_int height_px @ '' /ColorSpace '' @ colorspace,
      ''/BitsPerComponent 8 /Filter /DCTDecode /Length '' @ str_nat (length d) @ ''>> stream'',
      d,
      ''endstream'']"

definition contents_body :: "int \<Rightarrow> int \<Rightarrow> string list" where
  "contents_body width_pt height_pt =
     (let page_contents = ''q '' @ str_int width_pt @ '' 0 0 '' @ str_int height_pt
                          @ '' 0 0 cm /image Do Q ''
      in [''<</Length '' @ str_nat (length page_contents) @ ''>> stream'',
          page_contents,
          ''endstream''])"

definition allocated :: "pdf \<Rightarrow> pdf" where
  "allocated s = s\<lparr>last_obj := last_obj s + 3,
                     page_refs := page_refs s @ [last_obj s + 1],
                     page_count := page_count s + 1\<rparr>"

definition page_text :: "nat \<Rightarrow> int \<Rightarrow> int \<Rightarrow> string" where
  "page_text ref width_pt height_pt =
     obj_text ref (page_body (ref + 1) (ref + 2) width_pt height_pt)"

definition image_text :: "nat \<Rightarrow> int \<Rightarrow> int \<Rightarrow> bool \<Rightarrow> string \<Rightarrow> string" where
  "image_text ref width_px height_px grayscale d =
     obj_text ref (image_body width_px height_px
                     (if grayscale then ''/DeviceGray'' else ''/DeviceRGB'') d)"

definition contents_text :: "nat \<Rightarrow> int \<Rightarrow> int \<Rightarrow> string" where
  "contents_text ref width_pt height_pt = obj_text ref (contents_body width_pt height_pt)"

definition added :: "string \<Rightarrow> int \<Rightarrow> int \<Rightarrow> int \<Rightarrow> int \<Rightarrow> bool \<Rightarrow> pdf \<Rightarrow> pdf" where
  "added d width_px height_px width_pt height_pt grayscale s =
     (let r = last_obj s + 1;
          P = page_text r width_pt height_pt;
          I = image_text (r + 1) width_px height_px grayscale d;
          C = contents_text (r + 2) width_pt height_pt;
          t = file_tell s
      in (allocated s)\<lparr>obj_offsets := obj_offsets s @ [t, t + length P, t + length P + length I],
                        file_data := file_data s @ P @ I @ C\<rparr>)"

definition rewound :: "jpegdata \<Rightarrow> jpegdata" where
  "rewound j = (case j of Str d \<Rightarrow> Str d | File f \<Rightarrow> File (f\<lparr>pos := 0\<rparr>))"

definition catalog_text :: "nat \<Rightarrow> string" where
  "catalog_text ref = obj_text ref [''<</Type /Catalog /Pages 1 0 R>>'']"

definition kids :: "nat list \<Rightarrow> string" where
  "kids refs = concat (map (\<lambda>page_ref. str_nat page_ref @ '' 0 R '') refs)"

definition page_list_text :: "nat \<Rightarrow> nat list \<Rightarrow> string" where
  "page_list_text count refs =
     obj_text 1 [''<</Type /Pages /Count '' @ str_nat count @ '' /Kids ['' @ kids refs @ '']>>'']"

definition xref_line :: "nat \<Rightarrow> nat \<Rightarrow> string" where
  "xref_line initial offset =
     line (zero_pad 10 offset @ '' '' @ zero_pad 5 (if offset = initial then 65535 else 0) @ '' ''
           @ (if offset = initial then ''f'' else ''n'') @ '' '')"

definition xref_text :: "nat \<Rightarrow> nat \<Rightarrow> nat list \<Rightarrow> string" where
  "xref_text n initial offsets =
     line ''xref'' @ line (''0 '' @ str_nat n) @ concat (map (xref_line initial) offsets)"

definition trailer_text :: "nat \<Rightarrow> nat \<Rightarrow> nat \<Rightarrow> string \<Rightarrow> string" where
  "trailer_text n catalog xref uid =
     line (''trailer <</Size '' @ str_nat n @ '' /Root '' @ str_nat catalog
           @ '' 0 R /ID [('' @ uid @ '')('' @ uid @ '')]>>'')
     @ line (''startxref '' @ str_nat xref)
     @ line ''%%EOF''"

definition sealed :: "string \<Rightarrow> pdf \<Rightarrow> pdf" where
  "sealed uid s =
     (let catalog = last_obj s + 1;
          t = file_tell s;
          offsets = (obj_offsets s @ [t])[1 := t + length (catalog_text catalog)];
          xref = t + length (catalog_text catalog)
                 + length (page_list_text (page_count s) (page_refs s))
      in s\<lparr>file_open := False,
            last_obj := catalog,
            catalog_ref := Some catalog,
            obj_offsets := offsets,
            xref_offset := xref,
            xref_size := catalog + 1,
            file_data := file_data s @ catalog_text catalog
                         @ page_list_text (page_count s) (page_refs s)
                         @ xref_text (catalog + 1) (initial_offset s) offsets
                         @ trailer_text (catalog + 1) catalog xref uid\<rparr>)"

definition closable :: "pdf \<Rightarrow> bool" where
  "closable s \<longleftrightarrow> page_count s = length (page_refs s) \<and> 4 \<le> last_obj s
                   \<and> length (obj_offsets s) = last_obj s + 1"

subsection \<open>Whole sessions\<close>

text \<open>
  \<open>new_writer start\<close> is the writer that \<^verbatim>\<open>PDFWriter(file)\<close> returns for a file at
  position \<open>start\<close>. \<open>add_pages\<close> is a caller's loop of \<^verbatim>\<open>add_page\<close> calls that lets the
  first exception through.
\<close>

definition new_writer :: "nat \<Rightarrow> pdf" where
  "new_writer start = snd (init start)"

type_synonym page = "jpegdata \<times> int \<times> int \<times> int \<times> bool"

definition add_pages :: "page list \<Rightarrow> action" where
  "add_pages pages = seq (map (\<lambda>(j, w, h, r, g). add_page j w h r g) pages)"

text \<open>
  \<open>written_at s offset bytes\<close>: in the file, the bytes from the absolute position \<open>offset\<close>
  on are \<open>bytes\<close> (and more). An object's header line \<^verbatim>\<open>ref 0 obj\<close> begins at \<open>offset\<close>
  when \<open>object_at s ref offset\<close>.
\<close>

definition written_at :: "pdf \<Rightarrow> nat \<Rightarrow> string \<Rightarrow> bool" where
  "written_at s offset bytes \<longleftrightarrow>
     file_start s \<le> offset
     \<and> take (length bytes) (drop (offset - file_start s) (file_data s)) = bytes"

definition object_at :: "pdf \<Rightarrow> nat \<Rightarrow> nat \<Rightarrow> bool" where
  "object_at s ref offset \<longleftrightarrow> written_at s offset (line (str_nat ref @ '' 0 obj''))"

definition preamble :: string where
  "preamble = line ''%PDF-1.2''
     @ line [CHR ''%'', CHR 0xFF, CHR 0xC3, CHR 0xA7, CHR 0xC3, CHR 0xA7, CHR 0xC3, CHR 0xA7,
             CHR 0x00]"

definition writer_inv :: "nat \<Rightarrow> pdf \<Rightarrow> bool" where
  "writer_inv start s \<longleftrightarrow>
     file_open s \<and> file_start s = start \<and> initial_offset s = start
     \<and> last_obj s = 3 * page_count s + 1
     \<and> page_refs s = map (\<lambda>k. 3 * k + 2) [0..<page_count s]
     \<and> length (obj_offsets s) = last_obj s + 1
     \<and> obj_offsets s ! 0 = start
     \<and> file_data s \<noteq> []
     \<and> (\<forall>i. 2 \<le> i \<and> i \<le> last_obj s \<longrightarrow>
            start < obj_offsets s ! i \<and> object_at s i (obj_offsets s ! i))"

text \<open>
  The state after a whole session: a writer on a file at position \<open>start\<close>, the pages
  added in order, then \<^verbatim>\<open>close\<close>.
\<close>

definition session :: "nat \<Rightarrow> page list \<Rightarrow> string \<Rightarrow> pdf" where
  "session start pages uid = snd (close uid (snd (add_pages pages (new_writer start))))"

text \<open>A smallest acceptable payload: the marker and 118 more bytes.\<close>

definition example_jpeg :: string where
  "example_jpeg = SOI @ replicate 118 (CHR ''x'')"

text \<open>
  The outcomes after which a caller may carry on with the same writer: the call returned,
  or it raised a validation error, or \<^verbatim>\<open>close\<close> found no pages.
\<close>

fun recoverable :: "error option \<Rightarrow> bool" where
  "recoverable None = True"
| "recoverable (Some (ValueError msg)) = True"
| "recoverable (Some (RuntimeError msg)) = (msg = ''No pages added to PDF.'')"
| "recoverable (Some _) = False"

text \<open>
  \<open>extends s s'\<close>: from \<open>s\<close> to \<open>s'\<close> the file and the ledger have only grown at the end.
\<close>

definition extends :: "pdf \<Rightarrow> pdf \<Rightarrow> bool" where
  "extends s s' \<longleftrightarrow>
     file_start s' = file_start s
     \<and> (\<exists>rest. file_data s' = file_data s @ rest)
     \<and> (\<exists>rest. obj_offsets s' = obj_offsets s @ rest)"

section \<open>Binary64 rounding\<close>

text \<open>
  What the conversion to points needs to know about \<open>round_double\<close>: \<open>ilog2\<close> is the binary
  exponent of a positive rational; rounding changes a number in the normal range by at
  most its \<open>2 ^ 53\<close>-th part; the integers below \<open>2 ^ 53\<close> are floats; and dividing an
  integer below \<open>2 ^ 50\<close> by 72 and multiplying the quotient by 72 gives the integer back,
  both operations rounded.
\<close>

lemma pow2_pos [simp]: "0 < pow2 e"
  by (simp add: pow2_def)

lemma pow2_add: "pow2 (a + b) = pow2 a * pow2 b"
  by (simp add: pow2_def power_int_add)

lemma pow2_diff: "pow2 (a - b) = pow2 a / pow2 b"
  by (simp add: pow2_def power_int_diff)

lemma pow2_mono: "a \<le> b \<Longrightarrow> pow2 a \<le> pow2 b"
  by (simp add: pow2_def power_int_increasing)

lemma pow2_nat: "0 \<le> e \<Longrightarrow> pow2 e = of_int (2 ^ nat e)"
  by (simp add: pow2_def power_int_def)

lemma pow2_0 [simp]: "pow2 0 = 1"
  by (simp add: pow2_def)

lemma pow2_Suc: "pow2 (e + 1) = 2 * pow2 e"
  by (simp add: pow2_def power_int_add_1')

lemma bits_int_bounds:
  "0 < n \<Longrightarrow> 0 < bits n \<and> 2 ^ nat (bits n - 1) \<le> n \<and> n < 2 ^ nat (bits n)"
proof (induction n rule: bits.induct)
  case (1 n)
  show ?case
  proof (cases "n = 1")
    case True
    then show ?thesis
      by (simp add: bits.simps [of 1] bits.simps [of 0])
  next
    case False
    with "1.prems" have pos: "0 < n div 2" by simp
    let ?b = "bits (n div 2)"
    from "1.IH" "1.prems" pos
    have ih: "0 < ?b" "2 ^ nat (?b - 1) \<le> n div 2" "n div 2 < 2 ^ nat ?b" by simp_all
    have b: "bits n = 1 + ?b"
      using "1.prems" by (simp add: bits.simps [of n])
    have p: "(2::int) ^ nat (1 + ?b) = 2 * 2 ^ nat ?b"
      using ih(1) by (simp add: nat_add_distrib)
    have p': "(2::int) ^ nat ?b = 2 * 2 ^ nat (?b - 1)"
      using ih(1) by (metis Suc_nat_eq_nat_zadd1 add.commute diff_add_cancel diff_ge_0_iff_ge power_Suc zless_imp_add1_zle zero_less_one_class.zero_le_one add_0 less_le_not_le)
    have d: "2 * (n div 2) \<le> n" "n \<le> 2 * (n div 2) + 1" by presburger+
    have "0 < bits n" using ih(1) b by simp
    moreover have "2 ^ nat (bits n - 1) \<le> n"
      using ih(2) d(1) p' by (simp add: b)
    moreover have "n < 2 ^ nat (bits n)"
      using ih(3) d(2) p by (simp add: b)
    ultimately show ?thesis by simp
  qed
qed

lemma bits_bounds:
  assumes "0 < n"
  shows "pow2 (bits n - 1) \<le> of_int n" and "of_int n < pow2 (bits n)"
proof -
  from bits_int_bounds [OF assms]
  have b: "0 < bits n" "2 ^ nat (bits n - 1) \<le> n" "n < 2 ^ nat (bits n)" by simp_all
  have "pow2 (bits n - 1) = of_int (2 ^ nat (bits n - 1))"
    using b(1) by (intro pow2_nat) simp
  also have "\<dots> \<le> of_int n"
    using b(2) by (simp only: of_int_le_iff)
  finally show "pow2 (bits n - 1) \<le> of_int n" .
  have "(of_int n :: rat) < of_int (2 ^ nat (bits n))"
    using b(3) by (simp only: of_int_less_iff)
  also have "\<dots> = pow2 (bits n)"
    using b(1) by (intro pow2_nat [symmetric]) simp
  finally show "of_int n < pow2 (bits n)" .
qed

lemma ilog2_bounds:
  assumes "0 < x"
  shows "pow2 (ilog2 x) \<le> x" and "x < pow2 (ilog2 x + 1)"
proof -
  obtain a b where q: "quotient_of x = (a, b)" by (cases "quotient_of x")
  then have b: "0 < b" by (rule quotient_of_denom_pos)
  from q have x: "x = of_int a / of_int b" by (rule quotient_of_div)
  with assms b have a: "0 < a" by (simp add: zero_less_divide_iff)
  let ?d = "bits a - bits b"
  note ba = bits_bounds [OF a] and bb = bits_bounds [OF b]
  have B: "(0::rat) < of_int b" using b by simp
  have lo: "pow2 (?d - 1) < x"
  proof -
    have "pow2 (?d - 1) * of_int b < pow2 (?d - 1) * pow2 (bits b)"
      using bb(2) by simp
    also have "\<dots> = pow2 (bits a - 1)"
      by (simp flip: pow2_add)
    also have "\<dots> \<le> of_int a" by (rule ba(1))
    finally show ?thesis using B by (simp add: x pos_less_divide_eq)
  qed
  have hi: "x < pow2 (?d + 1)"
  proof -
    have "of_int a < pow2 (bits a)" by (rule ba(2))
    also have "\<dots> = pow2 (?d + 1) * pow2 (bits b - 1)"
      by (simp flip: pow2_add)
    also have "\<dots> \<le> pow2 (?d + 1) * of_int b"
      using bb(1) by simp
    finally show ?thesis using B by (simp add: x pos_divide_less_eq)
  qed
  have il: "ilog2 x = (if pow2 ?d \<le> x then ?d else ?d - 1)"
    by (simp add: ilog2_def q)
  show "pow2 (ilog2 x) \<le> x"
    using lo by (simp add: il less_imp_le)
  show "x < pow2 (ilog2 x + 1)"
    using hi by (auto simp: il not_le)
qed

lemma ilog2_unique:
  assumes "pow2 e \<le> x" and "x < pow2 (e + 1)"
  shows "ilog2 x = e"
proof -
  have pos: "0 < x" using assms(1) pow2_pos [of e] by linarith
  note b = ilog2_bounds [OF pos]
  have "pow2 e < pow2 (ilog2 x + 1)" using assms(1) b(2) by linarith
  then have 1: "e < ilog2 x + 1"
    using pow2_mono [of "ilog2 x + 1" e] by (cases "e < ilog2 x + 1") auto
  have "pow2 (ilog2 x) < pow2 (e + 1)" using assms(2) b(1) by linarith
  then have 2: "ilog2 x < e + 1"
    using pow2_mono [of "e + 1" "ilog2 x"] by (cases "ilog2 x < e + 1") auto
  from 1 2 show ?thesis by simp
qed

lemma round_half_even_near:
  "\<bar>of_int (round_half_even x) - x\<bar> \<le> 1 / 2"
proof -
  have "of_int \<lfloor>x\<rfloor> \<le> x" "x < of_int \<lfloor>x\<rfloor> + 1" by linarith+
  then show ?thesis
    by (auto simp: round_half_even_def Let_def)
qed

lemma round_half_even_int [simp]: "round_half_even (of_int k) = k"
  by (simp add: round_half_even_def)

lemma round_half_even_eq:
  assumes "\<bar>x - of_int k\<bar> \<le> 1 / 2" and "even k"
  shows "round_half_even x = k"
proof -
  consider "x - of_int k = - (1 / 2)" | "- (1 / 2) < x - of_int k" "x - of_int k < 0"
    | "0 \<le> x - of_int k" "x - of_int k < 1 / 2" | "x - of_int k = 1 / 2"
    using assms(1) by fastforce
  then show ?thesis
  proof cases
    case 1
    then have f: "\<lfloor>x\<rfloor> = k - 1" by (intro floor_unique) simp_all
    with 1 assms(2) show ?thesis by (simp add: round_half_even_def Let_def)
  next
    case 2
    then have f: "\<lfloor>x\<rfloor> = k - 1" by (intro floor_unique) simp_all
    with 2 show ?thesis by (simp add: round_half_even_def Let_def)
  next
    case 3
    then have f: "\<lfloor>x\<rfloor> = k" by (intro floor_unique) simp_all
    with 3 show ?thesis by (simp add: round_half_even_def Let_def)
  next
    case 4
    then have f: "\<lfloor>x\<rfloor> = k" by (intro floor_unique) simp_all
    with 4 assms(2) show ?thesis by (simp add: round_half_even_def Let_def)
  qed
qed

lemma pow2_nonzero [simp]: "pow2 e \<noteq> 0"
  by (simp add: pow2_def)

lemma pow2_nonneg [simp]: "0 \<le> pow2 e"
  by (simp add: pow2_def)

lemma pow2_abs [simp]: "\<bar>pow2 e\<bar> = pow2 e"
  by (simp add: abs_of_pos)

lemma of_int_less_2p53:
  "n < 2 ^ 53 \<Longrightarrow> (of_int n :: rat) < 2 ^ 53"
proof -
  assume "n < 2 ^ 53"
  then have "(of_int n :: rat) < of_int (2 ^ 53)" by (simp only: of_int_less_iff)
  then show ?thesis by simp
qed

lemma pow2_less_cancel: "pow2 a < pow2 b \<Longrightarrow> a < b"
  using pow2_mono [of b a] by (cases "a < b") auto

lemma pow2_numeral: "pow2 (numeral n) = 2 ^ numeral n"
  by (simp add: pow2_def)

lemma pow2_neg_numeral: "pow2 (- numeral n) = 1 / 2 ^ numeral n"
  by (simp add: pow2_def power_int_minus_divide)

lemma of_int_mult_pow2:
  "0 \<le> e \<Longrightarrow> of_int k * pow2 e = of_int (k * 2 ^ nat e)"
  by (simp add: pow2_nat)

text \<open>
  The rounded value, when the scaled argument is within a half of an even integer or is
  an integer, and the error of rounding in the normal range.
\<close>

lemma round_pos_eq:
  assumes "e = max (ilog2 z - 52) (- 1074)"
    and "\<bar>z / pow2 e - of_int K\<bar> \<le> 1 / 2" and "even K"
  shows "round_pos z = of_int K * pow2 e"
  using assms by (simp add: round_pos_def Let_def round_half_even_eq)

lemma round_pos_int:
  assumes "e = max (ilog2 z - 52) (- 1074)" and "z / pow2 e = of_int K"
  shows "round_pos z = z"
proof -
  have "round_pos z = of_int K * pow2 e"
    using assms by (simp add: round_pos_def Let_def)
  also have "\<dots> = z"
    using assms(2) pow2_pos [of e] by (simp add: field_simps)
  finally show ?thesis .
qed

lemma round_pos_error:
  assumes "pow2 (- 1022) \<le> x"
  shows "\<bar>round_pos x - x\<bar> \<le> x / 2 ^ 53"
proof -
  have pos: "0 < x" using assms pow2_pos [of "- 1022"] by linarith
  note b = ilog2_bounds [OF pos]
  let ?L = "ilog2 x" and ?e = "ilog2 x - 52"
  have "pow2 (- 1022) < pow2 (?L + 1)" using assms b(2) by linarith
  then have "- 1022 < ?L + 1" by (rule pow2_less_cancel)
  then have e: "max ?e (- 1074) = ?e" by simp
  let ?m = "round_half_even (x / pow2 ?e)"
  have "round_pos x - x = (of_int ?m - x / pow2 ?e) * pow2 ?e"
    using pow2_pos [of ?e] by (simp add: round_pos_def Let_def e field_simps)
  then have "\<bar>round_pos x - x\<bar> = \<bar>of_int ?m - x / pow2 ?e\<bar> * pow2 ?e"
    using pow2_pos [of ?e] by (simp add: abs_mult)
  also have "\<dots> \<le> 1 / 2 * pow2 ?e"
    using round_half_even_near [of "x / pow2 ?e"] pow2_pos [of ?e]
    by (intro mult_right_mono) simp_all
  also have "\<dots> = pow2 ?L / 2 ^ 53"
    by (simp add: pow2_diff pow2_numeral)
  also have "\<dots> \<le> x / 2 ^ 53"
    using b(1) by (simp add: divide_right_mono)
  finally show ?thesis .
qed

lemma round_double_nat:
  assumes "0 < n" and "n < 2 ^ 53"
  shows "round_double (of_int n) = of_int n"
proof -
  let ?x = "of_int n :: rat"
  have pos: "0 < ?x" using assms(1) by simp
  note b = ilog2_bounds [OF pos]
  let ?L = "ilog2 ?x"
  have "?x < pow2 53" using of_int_less_2p53 [OF assms(2)] by (simp add: pow2_numeral)
  with b(1) have "pow2 ?L < pow2 53" by linarith
  then have L1: "?L < 53" by (rule pow2_less_cancel)
  have "pow2 0 \<le> ?x" using assms(1) by simp
  with b(2) have "pow2 0 < pow2 (?L + 1)" by linarith
  then have L0: "0 < ?L + 1" by (rule pow2_less_cancel)
  have e: "ilog2 ?x - 52 = max (ilog2 ?x - 52) (- 1074)" using L0 by simp
  have "?x / pow2 (?L - 52) = ?x * pow2 (52 - ?L)"
    by (simp add: pow2_diff)
  also have "\<dots> = of_int (n * 2 ^ nat (52 - ?L))"
    using L1 by (intro of_int_mult_pow2) simp
  finally have "round_pos ?x = ?x" by (rule round_pos_int [OF e])
  with pos show ?thesis by (simp add: round_double_def)
qed

lemma float_of_int_exact:
  assumes "0 < n" and "n < 2 ^ 53"
  shows "float_of_int n = Inr (of_int n)"
proof -
  have "(of_int n :: rat) < 2 ^ 53"
    using assms(2) by (rule of_int_less_2p53)
  also have "\<dots> < 2 ^ 1024" by simp
  finally have "\<not> is_inf (of_int n)"
    using assms(1) by (simp add: is_inf_def)
  then show ?thesis
    by (simp add: float_of_int_def round_double_nat [OF assms])
qed

text \<open>
  For an integer \<open>k\<close> with \<open>2 ^ a \<le> k / 72 < 2 ^ (a + 1)\<close>, the float \<open>q\<close> nearest to
  \<open>k / 72\<close> is a multiple of \<open>2 ^ (a - 52)\<close> within \<open>4 / 9\<close> of that unit (the scaled
  quotient is a multiple of \<open>1 / 9\<close>), so \<open>72 * q\<close> differs from \<open>k\<close> by at most
  \<open>2 ^ (a - 47)\<close>. The unit of the floats around \<open>k\<close> is \<open>2 ^ (a - 46)\<close> or \<open>2 ^ (a - 45)\<close>,
  and \<open>k\<close> is an even multiple of it: \<open>72 * q\<close> rounds to \<open>k\<close>, a tie included.
\<close>

lemma of_int_less_2p50:
  "n < 2 ^ 50 \<Longrightarrow> (of_int n :: rat) < 2 ^ 50"
proof -
  assume "n < 2 ^ 50"
  then have "(of_int n :: rat) < of_int (2 ^ 50)" by (simp only: of_int_less_iff)
  then show ?thesis by simp
qed

lemma pow2_plus_numeral: "pow2 (a + numeral n) = pow2 a * 2 ^ numeral n"
  by (simp add: pow2_add pow2_numeral)

lemma pow2_minus_numeral: "pow2 (a - numeral n) = pow2 a / 2 ^ numeral n"
  by (simp add: pow2_diff pow2_numeral)

lemma pow2_numeral_minus: "pow2 (numeral n - a) = 2 ^ numeral n / pow2 a"
  by (simp add: pow2_diff pow2_numeral)

lemma div_pow2_diff: "t / pow2 (a - b) = t * pow2 (b - a)"
  by (simp add: pow2_diff)

lemma pow2_diff_inverse: "pow2 (a - b) * pow2 (b - a) = 1"
  by (simp add: pow2_diff)

lemma round_trip_72:
  assumes "1 \<le> k" and "k < 2 ^ 50"
  shows "round_double (round_double (of_int k / 72) * 72) = of_int k"
proof -
  let ?K = "of_int k :: rat"
  let ?x = "?K / 72"
  have K1: "1 \<le> ?K" using assms(1) by simp
  have K2: "?K < 2 ^ 50" using assms(2) by (rule of_int_less_2p50)
  have xpos: "0 < ?x" using K1 by simp
  note b = ilog2_bounds [OF xpos]
  let ?a = "ilog2 ?x"
  define A where "A = pow2 ?a"
  have A: "0 < A" by (simp add: A_def)
  have "pow2 (- 7) < pow2 (?a + 1)"
    using K1 b(2) by (simp add: pow2_neg_numeral)
  then have "- 7 < ?a + 1" by (rule pow2_less_cancel)
  then have a_lo: "- 7 \<le> ?a" by simp
  have "pow2 ?a < pow2 44"
    using K2 b(1) by (simp add: pow2_numeral)
  then have "?a < 44" by (rule pow2_less_cancel)
  then have a_hi: "?a \<le> 43" by simp
  have e1: "max (?a - 52) (- 1074) = ?a - 52" using a_lo by simp
  define N where "N = k * 2 ^ nat (49 - ?a)"
  have N: "of_int N = ?K * (2 ^ 49 / A)"
    unfolding N_def A_def using a_hi
    by (subst of_int_mult_pow2 [symmetric]) (simp_all add: pow2_numeral_minus)
  have xs: "?x / pow2 (?a - 52) = of_int N / 9"
    using A by (simp add: N pow2_minus_numeral A_def [symmetric] field_simps)
  define M where "M = round_half_even (of_int N / 9)"
  have "\<bar>of_int M - of_int N / 9\<bar> \<le> (1 / 2 :: rat)"
    unfolding M_def by (rule round_half_even_near)
  then have "\<bar>of_int (9 * M - N)\<bar> \<le> (9 / 2 :: rat)"
    by (simp add: abs_le_iff field_simps)
  then have "(of_int \<bar>9 * M - N\<bar> :: rat) < of_int 5"
    by (simp only: of_int_abs)
  then have "\<bar>9 * M - N\<bar> < 5" by (simp only: of_int_less_iff)
  then have M4: "\<bar>9 * M - N\<bar> \<le> 4" by simp
  have "round_pos ?x = of_int M * pow2 (?a - 52)"
    by (simp only: round_pos_def Let_def e1 xs M_def)
  then have q: "round_double ?x = of_int M * (A / 2 ^ 52)"
    using xpos by (simp add: round_double_def pow2_minus_numeral A_def)
  let ?z = "round_double ?x * 72"
  have KN: "?K = of_int N * (A / 2 ^ 49)"
    using A by (simp add: N field_simps)
  have "?z - ?K = of_int (9 * M - N) * (A / 2 ^ 49)"
    by (subst KN) (simp add: q field_simps)
  then have "\<bar>?z - ?K\<bar> = \<bar>of_int (9 * M - N) * (A / 2 ^ 49)\<bar>"
    by (simp only:)
  also have "\<dots> = of_int \<bar>9 * M - N\<bar> * (A / 2 ^ 49)"
    using A by (simp add: abs_mult abs_of_pos)
  also have "\<dots> \<le> of_int 4 * (A / 2 ^ 49)"
    using M4 A by (intro mult_right_mono) (simp_all only: of_int_le_iff, simp)
  finally have dz: "\<bar>?z - ?K\<bar> \<le> A / 2 ^ 47" by simp
  have Klo: "72 * A \<le> ?K" using b(1) by (simp add: A_def)
  have Khi: "?K < 144 * A" using b(2) by (simp add: A_def pow2_Suc)
  have small: "A / 2 ^ 47 \<le> A" using A by (simp add: field_simps)
  have p6: "pow2 (?a + 6) = 64 * A" and p8: "pow2 (?a + 8) = 256 * A"
    by (simp_all add: pow2_plus_numeral A_def)
  have zlo: "pow2 (?a + 6) \<le> ?z"
    unfolding p6 using dz Klo A small by linarith
  have zhi: "?z < pow2 (?a + 8)"
    unfolding p8 using dz Khi A small by linarith
  have zpos: "0 < ?z" using zlo pow2_pos [of "?a + 6"] by linarith
  note bz = ilog2_bounds [OF zpos]
  let ?b = "ilog2 ?z"
  have "pow2 (?a + 6) < pow2 (?b + 1)" using zlo bz(2) by linarith
  then have "?a + 6 < ?b + 1" by (rule pow2_less_cancel)
  moreover have "pow2 ?b < pow2 (?a + 8)" using zhi bz(1) by linarith
  then have "?b < ?a + 8" by (rule pow2_less_cancel)
  ultimately have bcases: "?b = ?a + 6 \<or> ?b = ?a + 7" by linarith
  have e2: "?b - 52 = max (?b - 52) (- 1074)" using bcases a_lo by auto
  define K' where "K' = k * 2 ^ nat (52 - ?b)"
  have "0 < nat (52 - ?b)" using bcases a_hi by auto
  then have evenK: "even K'" by (simp add: K'_def)
  have K': "of_int K' = ?K * pow2 (52 - ?b)"
    unfolding K'_def using bcases a_hi by (subst of_int_mult_pow2 [symmetric]) auto
  have KK: "of_int K' * pow2 (?b - 52) = ?K"
    by (simp only: K' mult.assoc pow2_diff_inverse mult_1_right)
  have "?z / pow2 (?b - 52) - of_int K' = (?z - ?K) * pow2 (52 - ?b)"
    by (simp only: K' div_pow2_diff left_diff_distrib)
  then have "\<bar>?z / pow2 (?b - 52) - of_int K'\<bar> = \<bar>?z - ?K\<bar> * pow2 (52 - ?b)"
    by (simp add: abs_mult)
  also have "\<dots> \<le> A / 2 ^ 47 * pow2 (52 - ?b)"
    using dz by (intro mult_right_mono) simp_all
  also have "\<dots> \<le> 1 / 2"
    using bcases A
    by (auto simp: pow2_diff [of 52] pow2_plus_numeral pow2_numeral A_def [symmetric])
  finally have "round_pos ?z = of_int K' * pow2 (?b - 52)"
    using evenK by (intro round_pos_eq [OF e2])
  with KK zpos show ?thesis by (simp add: round_double_def)
qed

text \<open>
  Below \<open>2 ^ 43\<close> the conversion is exact. When \<open>resolution\<close> divides \<open>72 * pixels\<close> the
  quotient is \<open>k / 72\<close> for the integer result \<open>k\<close> and the round trip above applies.
  Otherwise the exact value lies at least \<open>1 / resolution\<close> from the integers on both
  sides, and the two rounding errors together move it by less than a quarter of that.
\<close>

lemma of_int_less_2p43:
  "n < 2 ^ 43 \<Longrightarrow> (of_int n :: rat) < 2 ^ 43"
proof -
  assume "n < 2 ^ 43"
  then have "(of_int n :: rat) < of_int (2 ^ 43)" by (simp only: of_int_less_iff)
  then show ?thesis by simp
qed

lemma round_double_pos_error:
  assumes "1 / 2 ^ 43 \<le> x"
  shows "\<bar>round_double x - x\<bar> \<le> x / 2 ^ 53"
proof -
  have "pow2 (- 1022) \<le> pow2 (- 43)" by (rule pow2_mono) simp
  also have "\<dots> = 1 / 2 ^ 43" by (simp add: pow2_neg_numeral)
  finally have n: "pow2 (- 1022) \<le> x" using assms by linarith
  have "0 < x" using assms by (simp add: order.strict_trans2 [OF _ assms])
  then show ?thesis using round_pos_error [OF n] by (simp add: round_double_def)
qed

lemma pixels_to_points_value:
  assumes "1 \<le> p" and "p < 2 ^ 43" and "1 \<le> r" and "r < 2 ^ 43"
  shows "round_double (round_double (of_int p / of_int r) * 72) \<in> {of_int (72 * p div r) ..< of_int (72 * p div r) + 1}"
proof -
  let ?P = "of_int p :: rat" and ?R = "of_int r :: rat"
  have P1: "1 \<le> ?P" and R1: "1 \<le> ?R" using assms by simp_all
  have P2: "?P < 2 ^ 43" and R2: "?R < 2 ^ 43" using assms by (simp_all add: of_int_less_2p43)
  define k where "k = 72 * p div r"
  define j where "j = 72 * p mod r"
  have kj: "72 * p = k * r + j" by (simp add: k_def j_def)
  have j0: "0 \<le> j" and jr: "j < r" using assms(3) by (simp_all add: j_def)
  have k0: "0 \<le> k" using assms by (simp add: k_def pos_imp_zdiv_nonneg_iff)
  let ?y = "round_double (round_double (?P / ?R) * 72)"
  have "of_int k \<le> ?y \<and> ?y < of_int k + 1"
  proof (cases "j = 0")
    case True
    with kj have e: "72 * p = k * r" by simp
    then have "72 * ?P = of_int k * ?R"
      by (metis of_int_mult of_int_numeral)
    then have x: "?P / ?R = of_int k / 72" using R1 by (simp add: field_simps)
    have "k \<noteq> 0" using e assms(1) by auto
    with k0 have k1: "1 \<le> k" by simp
    have "k * 1 \<le> k * r" using k0 assms(3) by (intro mult_left_mono) simp_all
    with e assms(2) have "k < 2 ^ 50" by simp
    with k1 have "?y = of_int k" unfolding x by (rule round_trip_72)
    then show ?thesis by simp
  next
    case False
    with j0 have j1: "1 \<le> j" by simp
    define w where "w = 1 / ?R"
    have w0: "0 < w" and w1: "w \<le> 1" and wlo: "1 / 2 ^ 43 < w"
      using R1 R2 by (simp_all add: w_def field_simps)
    define x0 where "x0 = ?P / ?R"
    have x0w: "x0 = ?P * w" by (simp add: x0_def w_def)
    have "72 * ?P = of_int k * ?R + of_int j"
      using kj by (metis of_int_add of_int_mult of_int_numeral)
    then have "72 * ?P * w = of_int k + of_int j * w"
      using R1 by (simp add: w_def field_simps)
    then have x: "72 * x0 = of_int k + of_int j * w" by (simp add: x0w)
    have "1 * w \<le> of_int j * w" using j1 w0 by (intro mult_right_mono) simp_all
    then have xlo: "of_int k + w \<le> 72 * x0" using x by simp
    have "of_int j \<le> ?R - 1" using jr by (metis of_int_le_iff of_int_diff of_int_1 zle_diff1_eq)
    then have "of_int j * w \<le> (?R - 1) * w" using w0 by (intro mult_right_mono) simp_all
    also have "\<dots> = 1 - w" using R1 by (simp add: w_def field_simps)
    finally have xhi: "72 * x0 \<le> of_int k + 1 - w" using x by simp
    have "72 * ?P * w < 2 ^ 50 * w" using P2 w0 by (intro mult_strict_right_mono) simp_all
    then have xw: "72 * x0 < 2 ^ 50 * w" by (simp add: x0w)
    have "1 * w \<le> ?P * w" using P1 w0 by (intro mult_right_mono) simp_all
    then have x0lo: "w \<le> x0" by (simp add: x0w)
    define q where "q = round_double x0"
    have eq: "\<bar>q - x0\<bar> \<le> x0 / 2 ^ 53"
      unfolding q_def using x0lo wlo by (intro round_double_pos_error) linarith
    from eq have "q - x0 \<le> x0 / 2 ^ 53" and "- (q - x0) \<le> x0 / 2 ^ 53"
      by (simp_all only: abs_le_iff)
    then have q1: "x0 - x0 / 9007199254740992 \<le> q" and q2: "q \<le> x0 + x0 / 9007199254740992"
      by simp_all
    define z where "z = q * 72"
    have zlo: "1 / 2 ^ 43 \<le> z" using q1 x0lo wlo by (simp add: z_def)
    define y where "y = round_double z"
    have "\<bar>y - z\<bar> \<le> z / 2 ^ 53"
      unfolding y_def using zlo by (rule round_double_pos_error)
    then have "y - z \<le> z / 2 ^ 53" and "- (y - z) \<le> z / 2 ^ 53"
      by (simp_all only: abs_le_iff)
    then have y1: "z - z / 9007199254740992 \<le> y" and y2: "y \<le> z + z / 9007199254740992"
      by simp_all
    have xw': "72 * x0 < 1125899906842624 * w" using xw by simp
    have "of_int k \<le> y"
      using y1 q1 xlo xw' w0 unfolding z_def by linarith
    moreover have "y < of_int k + 1"
      using y2 q2 xhi xw' w0 unfolding z_def by linarith
    ultimately show ?thesis by (simp add: y_def z_def q_def x0_def)
  qed
  then show ?thesis by (simp add: k_def)
qed

lemma pixels_to_points_exact:
  assumes "1 \<le> p" and "p < 2 ^ 43" and "1 \<le> r" and "r < 2 ^ 43"
  shows "pixels_to_points p r = Inr (72 * p div r)"
proof -
  let ?k = "72 * p div r"
  let ?y = "round_double (round_double (of_int p / of_int r) * 72)"
  from pixels_to_points_value [OF assms]
  have lo: "of_int ?k \<le> ?y" and hi: "?y < of_int ?k + 1" by simp_all
  then have fl: "\<lfloor>?y\<rfloor> = ?k" by (intro floor_unique)
  have k0: "0 \<le> ?k" using assms by (simp add: pos_imp_zdiv_nonneg_iff)
  then have y0: "0 \<le> ?y" using lo by (simp add: order_trans [OF _ lo])
  have "?k * 1 \<le> ?k * r" using k0 assms(3) by (intro mult_left_mono) simp_all
  moreover have "?k * r = 72 * p - 72 * p mod r" by (simp only: minus_mod_eq_div_mult)
  moreover have "0 \<le> 72 * p mod r" using assms(3) by simp
  ultimately have "?k \<le> 72 * p" by linarith
  then have "?k < 2 ^ 50" using assms(2) by simp
  then have "(of_int ?k :: rat) < 2 ^ 50" by (rule of_int_less_2p50)
  with hi have "?y < 2 ^ 50 + 1" by linarith
  also have "\<dots> < 2 ^ 1024" by simp
  finally have "\<not> is_inf ?y" using y0 by (simp add: is_inf_def)
  moreover have "float_of_int p = Inr (of_int p)" "float_of_int r = Inr (of_int r)"
    using assms by (simp_all add: float_of_int_exact)
  ultimately show ?thesis
    using y0 assms(3) fl by (simp add: pixels_to_points_def int_of_float_def)
qed

text \<open>Beyond \<open>2 ^ 53\<close>: the values at two particular inputs.\<close>

lemma round_double_exact:
  assumes "pow2 L \<le> z" and "z < pow2 (L + 1)" and "- 1022 \<le> L"
    and "z / pow2 (L - 52) = of_int K"
  shows "round_double z = z"
proof -
  have pos: "0 < z" using assms(1) pow2_pos [of L] by linarith
  have L: "ilog2 z = L" using assms(1,2) by (rule ilog2_unique)
  have e: "L - 52 = max (ilog2 z - 52) (- 1074)" using assms(3) by (simp add: L)
  from e assms(4) have "round_pos z = z" by (rule round_pos_int)
  with pos show ?thesis by (simp add: round_double_def)
qed

lemma round_double_eq:
  assumes "pow2 L \<le> z" and "z < pow2 (L + 1)" and "- 1022 \<le> L"
    and "\<bar>z / pow2 (L - 52) - of_int K\<bar> \<le> 1 / 2" and "even K"
  shows "round_double z = of_int K * pow2 (L - 52)"
proof -
  have pos: "0 < z" using assms(1) pow2_pos [of L] by linarith
  have L: "ilog2 z = L" using assms(1,2) by (rule ilog2_unique)
  have e: "L - 52 = max (ilog2 z - 52) (- 1074)" using assms(3) by (simp add: L)
  from e assms(4,5) have "round_pos z = of_int K * pow2 (L - 52)" by (rule round_pos_eq)
  with pos show ?thesis by (simp add: round_double_def)
qed

lemma float_of_int_2p53_1: "float_of_int 9007199254740993 = Inr 9007199254740992"
proof -
  have "round_double 9007199254740993 = of_int 4503599627370496 * pow2 (53 - 52)"
    by (rule round_double_eq) (simp_all add: pow2_numeral pow2_def)
  then show ?thesis
    by (simp add: float_of_int_def is_inf_def pow2_def)
qed

lemma pixels_to_points_2p53_1:
  "pixels_to_points 9007199254740993 1 = Inr 648518346341351424"
proof -
  have f1: "float_of_int 1 = Inr 1"
    using float_of_int_exact [of 1] by simp
  have r1: "round_double 9007199254740992 = 9007199254740992"
    by (rule round_double_exact [where L = 53 and K = 4503599627370496])
       (simp_all add: pow2_numeral pow2_def)
  have r2: "round_double 648518346341351424 = 648518346341351424"
    by (rule round_double_exact [where L = 59 and K = 5066549580791808])
       (simp_all add: pow2_numeral pow2_def)
  show ?thesis
    by (simp add: pixels_to_points_def f1 float_of_int_2p53_1 r1 r2 int_of_float_def is_inf_def)
qed

lemma pixels_to_points_overflow:
  "pixels_to_points (2 ^ 1024) 1 = Inl OverflowError"
proof -
  have f1: "float_of_int 1 = Inr 1"
    using float_of_int_exact [of 1] by simp
  have "round_double (2 ^ 1024) = 2 ^ 1024"
    by (rule round_double_exact [where L = 1024 and K = "2 ^ 52"])
       (simp_all add: pow2_numeral pow2_def)
  then have "float_of_int (2 ^ 1024) = Inl OverflowError"
    by (simp add: float_of_int_def is_inf_def)
  then show ?thesis
    by (simp add: pixels_to_points_def f1)
qed

lemma floor_points: "\<lfloor>(of_int p :: rat) / of_int r * 72\<rfloor> = 72 * p div r"
proof -
  have "(of_int p :: rat) / of_int r * 72 = of_int (72 * p) / of_int r" by simp
  then show ?thesis by (simp only: floor_divide_of_int_eq)
qed


section \<open>What the private methods do\<close>

text \<open>
  On an open writer every private method completes, records the position of the file in
  the ledger where the source does, and appends its lines to the file; on a closed writer
  it raises at its first statement and changes nothing.
\<close>

lemma save_offset_open:
  "file_open s \<Longrightarrow> save_offset s = (None, s\<lparr>obj_offsets := obj_offsets s @ [file_tell s]\<rparr>)"
  by (simp add: save_offset_def check_closed_def)

lemma save_offset_closed:
  "\<not> file_open s \<Longrightarrow> save_offset s = (Some (RuntimeError ''PDF closed.''), s)"
  by (simp add: save_offset_def check_closed_def)

lemma writeln_open:
  "file_open s \<Longrightarrow> writeln d s = (None, s\<lparr>file_data := file_data s @ line d\<rparr>)"
  by (simp add: writeln_def check_closed_def file_write_def line_def)

lemma writeln_closed:
  "\<not> file_open s \<Longrightarrow> writeln d s = (Some (RuntimeError ''PDF closed.''), s)"
  by (simp add: writeln_def check_closed_def)

lemma write_obj_open:
  "file_open s \<Longrightarrow>
   write_obj ref s = (None, s\<lparr>file_data := file_data s @ line (str_nat ref @ '' 0 obj'')\<rparr>)"
  by (simp add: write_obj_def writeln_open)

lemma write_endobj_open:
  "file_open s \<Longrightarrow> write_endobj s = (None, s\<lparr>file_data := file_data s @ line ''endobj''\<rparr>)"
  by (simp add: write_endobj_def writeln_open)

lemma file_tell_simps [simp]:
  "file_tell (s\<lparr>obj_offsets := os\<rparr>) = file_tell s"
  "file_tell (s\<lparr>last_obj := n\<rparr>) = file_tell s"
  "file_tell (s\<lparr>page_refs := ps\<rparr>) = file_tell s"
  "file_tell (s\<lparr>page_count := k\<rparr>) = file_tell s"
  "file_tell (s\<lparr>catalog_ref := c\<rparr>) = file_tell s"
  "file_tell (s\<lparr>xref_offset := x\<rparr>) = file_tell s"
  "file_tell (s\<lparr>xref_size := y\<rparr>) = file_tell s"
  "file_tell (s\<lparr>file_open := b\<rparr>) = file_tell s"
  "file_tell (s\<lparr>file_data := d\<rparr>) = file_start s + length d"
  by (simp_all add: file_tell_def)

lemma write_page_open:
  "file_open s \<Longrightarrow>
   write_page ref image_ref contents_ref width_pt height_pt s =
     (None, s\<lparr>obj_offsets := obj_offsets s @ [file_tell s],
              file_data := file_data s @ obj_text ref (page_body image_ref contents_ref width_pt height_pt)\<rparr>)"
  by (simp add: write_page_def save_offset_open write_obj_open writeln_open write_endobj_open
        obj_text_def page_body_def)

lemma write_page_closed:
  "\<not> file_open s \<Longrightarrow>
   write_page ref image_ref contents_ref width_pt height_pt s =
     (Some (RuntimeError ''PDF closed.''), s)"
  by (simp add: write_page_def save_offset_closed)

text \<open>
  The chunked copy writes the rest of the source, whatever the chunk size cuts it into.
\<close>

lemma take_drop_length_take: "take n xs @ drop (length (take n xs)) xs = xs"
  by (cases "n \<le> length xs") (simp_all add: min_def)

lemma copy_chunks_open:
  "file_open s \<Longrightarrow>
   copy_chunks f s = (None, s\<lparr>file_data := file_data s @ drop (pos f) (content f)\<rparr>)"
proof (induction f s rule: copy_chunks.induct)
  case (1 f s)
  let ?chunk = "take buffer_size (drop (pos f) (content f))"
  show ?case
  proof (cases "?chunk = []")
    case True
    then have "drop (pos f) (content f) = []"
      by (simp add: buffer_size_def)
    with True show ?thesis
      by (simp add: copy_chunks.simps [of f s] file_read_def)
  next
    case False
    let ?f' = "f\<lparr>pos := pos f + length ?chunk\<rparr>"
    let ?s' = "s\<lparr>file_data := file_data s @ ?chunk\<rparr>"
    have w: "file_write ?chunk s = (None, ?s')"
      using "1.prems" by (simp add: file_write_def)
    have "copy_chunks ?f' ?s' =
            (None, ?s'\<lparr>file_data := file_data ?s' @ drop (pos ?f') (content ?f')\<rparr>)"
      using False w "1.prems" by (intro "1.IH") (auto simp: file_read_def)
    moreover have "?chunk @ drop (pos ?f') (content ?f') = drop (pos f) (content f)"
      using take_drop_length_take [of buffer_size "drop (pos f) (content f)"]
      by (simp add: add.commute)
    ultimately show ?thesis
      using False w by (simp add: copy_chunks.simps [of f s] file_read_def)
  qed
qed

lemma write_image_open:
  "file_open s \<Longrightarrow> (case j of File f \<Rightarrow> pos f = 0 | Str d \<Rightarrow> True) \<Longrightarrow>
   write_image ref width_px height_px colorspace j (length (jpeg_bytes j)) s =
     (None, s\<lparr>obj_offsets := obj_offsets s @ [file_tell s],
              file_data := file_data s
                @ obj_text ref (image_body width_px height_px colorspace (jpeg_bytes j))\<rparr>)"
  by (cases j)
     (simp_all add: write_image_def save_offset_open write_obj_open writeln_open write_endobj_open
        copy_chunks_open obj_text_def image_body_def jpeg_bytes_def line_def)

lemma write_contents_open:
  "file_open s \<Longrightarrow>
   write_contents ref width_pt height_pt s =
     (None, s\<lparr>obj_offsets := obj_offsets s @ [file_tell s],
              file_data := file_data s @ obj_text ref (contents_body width_pt height_pt)\<rparr>)"
  by (simp add: write_contents_def save_offset_open write_obj_open writeln_open write_endobj_open
        obj_text_def contents_body_def Let_def)

text \<open>
  \<^verbatim>\<open>add_page\<close> in closed form: the checks in their order, the allocation, the conversion of
  the dimensions, and then either the three objects or the closed error.
\<close>

lemma probe_eq:
  "(case j of
      Str d \<Rightarrow> (take SOI_size d, length d, Str d)
    | File f \<Rightarrow>
        (let (read_soi, f1) = file_read SOI_size (file_seek 0 f);
             f2 = file_seek_end f1
         in (read_soi, pos f2, File (file_seek 0 f2))))
   = (take 2 (jpeg_bytes j), length (jpeg_bytes j), rewound j)"
  by (cases j)
     (simp_all add: SOI_size_def SOI_def file_read_def file_seek_def file_seek_end_def
        jpeg_bytes_def rewound_def Let_def numeral_2_eq_2)

lemma jpeg_bytes_rewound [simp]: "jpeg_bytes (rewound j) = jpeg_bytes j"
  by (cases j) (simp_all add: rewound_def jpeg_bytes_def)

lemma rewound_at_start: "case rewound j of File f \<Rightarrow> pos f = 0 | Str d \<Rightarrow> True"
  by (cases j) (simp_all add: rewound_def)

lemma allocated_simps [simp]:
  "file_open (allocated s) = file_open s"
  "file_tell (allocated s) = file_tell s"
  "obj_offsets (allocated s) = obj_offsets s"
  "file_data (allocated s) = file_data s"
  "file_start (allocated s) = file_start s"
  "initial_offset (allocated s) = initial_offset s"
  "last_obj (allocated s) = last_obj s + 3"
  "page_refs (allocated s) = page_refs s @ [last_obj s + 1]"
  "page_count (allocated s) = page_count s + 1"
  by (simp_all add: allocated_def file_tell_def)

lemma write_three_open:
  assumes "file_open s"
  shows "seq [write_page r1 r2 r3 wp hp,
              write_image r2 width_px height_px cs (rewound j) (length (jpeg_bytes j)),
              write_contents r3 wp hp] s
         = (None, s\<lparr>obj_offsets := obj_offsets s
                      @ [file_tell s,
                         file_tell s + length (obj_text r1 (page_body r2 r3 wp hp)),
                         file_tell s + length (obj_text r1 (page_body r2 r3 wp hp))
                           + length (obj_text r2 (image_body width_px height_px cs (jpeg_bytes j)))],
                   file_data := file_data s
                      @ obj_text r1 (page_body r2 r3 wp hp)
                      @ obj_text r2 (image_body width_px height_px cs (jpeg_bytes j))
                      @ obj_text r3 (contents_body wp hp)\<rparr>)"
proof -
  let ?P = "obj_text r1 (page_body r2 r3 wp hp)"
  let ?I = "obj_text r2 (image_body width_px height_px cs (jpeg_bytes j))"
  let ?C = "obj_text r3 (contents_body wp hp)"
  let ?s2 = "s\<lparr>obj_offsets := obj_offsets s @ [file_tell s], file_data := file_data s @ ?P\<rparr>"
  let ?s3 = "?s2\<lparr>obj_offsets := obj_offsets ?s2 @ [file_tell ?s2],
                   file_data := file_data ?s2 @ ?I\<rparr>"
  let ?s4 = "?s3\<lparr>obj_offsets := obj_offsets ?s3 @ [file_tell ?s3],
                   file_data := file_data ?s3 @ ?C\<rparr>"
  have 1: "write_page r1 r2 r3 wp hp s = (None, ?s2)"
    using assms by (rule write_page_open)
  have 2: "write_image r2 width_px height_px cs (rewound j) (length (jpeg_bytes j)) ?s2
             = (None, ?s3)"
    using assms write_image_open [of ?s2 "rewound j"] rewound_at_start [of j]
    by simp
  have 3: "write_contents r3 wp hp ?s3 = (None, ?s4)"
    using assms by (intro write_contents_open) simp
  have "seq [write_page r1 r2 r3 wp hp,
             write_image r2 width_px height_px cs (rewound j) (length (jpeg_bytes j)),
             write_contents r3 wp hp] s = (None, ?s4)"
    by (simp only: seq.simps 1 2 3 prod.case option.case)
  also have "?s4 = s\<lparr>obj_offsets := obj_offsets s
                      @ [file_tell s, file_tell s + length ?P, file_tell s + length ?P + length ?I],
                   file_data := file_data s @ ?P @ ?I @ ?C\<rparr>"
    by (simp add: file_tell_def add.assoc)
  finally show ?thesis .
qed

lemma write_three_closed:
  assumes "\<not> file_open s"
  shows "seq [write_page r1 r2 r3 wp hp, a2, a3] s = (Some (RuntimeError ''PDF closed.''), s)"
  using assms by (simp add: write_page_closed)

lemma add_page_eq:
  "add_page j width_px height_px resolution grayscale s =
     (if take 2 (jpeg_bytes j) \<noteq> SOI then (Some (ValueError ''Invalid image data.''), s)
      else if length (jpeg_bytes j) < 120 then (Some (ValueError ''Invalid image length.''), s)
      else if width_px < 1 then (Some (ValueError ''Invalid image width.''), s)
      else if height_px < 1 then (Some (ValueError ''Invalid image height.''), s)
      else if resolution < 1 then (Some (ValueError ''Invalid image resolution.''), s)
      else (case pixels_to_points width_px resolution of
              Inl e \<Rightarrow> (Some e, allocated s)
            | Inr width_pt \<Rightarrow>
                (case pixels_to_points height_px resolution of
                   Inl e \<Rightarrow> (Some e, allocated s)
                 | Inr height_pt \<Rightarrow>
                     if file_open s
                     then (None, added (jpeg_bytes j) width_px height_px width_pt height_pt
                                   grayscale s)
                     else (Some (RuntimeError ''PDF closed.''), allocated s))))"
  unfolding add_page_def probe_eq
  by (simp add: min_jpeg_len_def Let_def write_three_open write_three_closed
        allocated_def added_def page_text_def image_text_def contents_text_def
        numeral_2_eq_2 numeral_3_eq_3 del: seq.simps split: sum.split)
text \<open>
  \<^verbatim>\<open>close\<close>: it raises on an empty document and on a closed writer; on an open writer it
  returns exactly when the assertions of \<^verbatim>\<open>_write_page_list\<close> and \<^verbatim>\<open>_write_xref\<close> hold
  (\<open>closable\<close>), and then leaves the state \<open>sealed\<close>.
\<close>

lemma write_catalog_open:
  "file_open s \<Longrightarrow>
   write_catalog ref s =
     (None, s\<lparr>obj_offsets := obj_offsets s @ [file_tell s],
              file_data := file_data s @ catalog_text ref,
              catalog_ref := Some ref\<rparr>)"
  by (simp add: write_catalog_def save_offset_open write_obj_open writeln_open write_endobj_open
        obj_text_def catalog_text_def)

lemma write_catalog_closed:
  "\<not> file_open s \<Longrightarrow> write_catalog ref s = (Some (RuntimeError ''PDF closed.''), s)"
  by (simp add: write_catalog_def save_offset_closed)

lemma write_page_list_open:
  assumes "file_open s" and "1 \<le> page_count s" and "page_count s = length (page_refs s)"
    and "2 \<le> length (obj_offsets s)"
  shows "write_page_list s =
     (None, s\<lparr>obj_offsets := (obj_offsets s)[1 := file_tell s],
              file_data := file_data s @ page_list_text (page_count s) (page_refs s)\<rparr>)"
  using assms
  by (simp add: write_page_list_def check_closed_def assert_that_def set_page_list_offset_def
        write_obj_open writeln_open write_endobj_open obj_text_def page_list_text_def kids_def)

lemma xref_entry_open:
  "file_open s \<Longrightarrow>
   xref_entry initial offset s = (None, s\<lparr>file_data := file_data s @ xref_line initial offset\<rparr>)"
  by (simp add: xref_entry_def xref_line_def writeln_open)

lemma xref_entries_open:
  "file_open s \<Longrightarrow>
   seq (map (xref_entry initial) offsets) s
     = (None, s\<lparr>file_data := file_data s @ concat (map (xref_line initial) offsets)\<rparr>)"
  by (induction offsets arbitrary: s) (simp_all add: xref_entry_open)

lemma write_xref_open:
  assumes "file_open s" and "5 \<le> last_obj s" and "length (obj_offsets s) = last_obj s + 1"
  shows "write_xref s =
     (None, s\<lparr>xref_offset := file_tell s, xref_size := last_obj s + 1,
              file_data := file_data s
                 @ xref_text (last_obj s + 1) (initial_offset s) (obj_offsets s)\<rparr>)"
  using assms
  by (simp add: write_xref_def check_closed_def assert_that_def writeln_open xref_entries_open
        xref_text_def)

lemma write_trailer_open:
  assumes "file_open s" and "0 < xref_offset s" and "0 < xref_size s" and "0 < catalog"
  shows "write_trailer catalog uid s =
     (None, s\<lparr>file_data := file_data s
                 @ trailer_text (xref_size s) catalog (xref_offset s) uid\<rparr>)"
  using assms
  by (simp add: write_trailer_def assert_that_def writeln_open trailer_text_def)

lemma obj_text_nonempty: "0 < length (obj_text ref body)"
  by (simp add: obj_text_def line_def)

lemma close_no_pages:
  "page_count s < 1 \<Longrightarrow> close uid s = (Some (RuntimeError ''No pages added to PDF.''), s)"
  by (simp add: close_def)

lemma close_closed:
  "1 \<le> page_count s \<Longrightarrow> \<not> file_open s \<Longrightarrow>
   close uid s = (Some (RuntimeError ''PDF closed.''), s\<lparr>last_obj := last_obj s + 1\<rparr>)"
  by (simp add: close_def Let_def write_catalog_closed)

lemma close_open:
  assumes "file_open s" and "1 \<le> page_count s" and "closable s"
  shows "close uid s = (None, sealed uid s)"
proof -
  let ?c = "last_obj s + 1"
  let ?s1 = "s\<lparr>last_obj := ?c\<rparr>"
  let ?s2 = "?s1\<lparr>obj_offsets := obj_offsets ?s1 @ [file_tell ?s1],
                   file_data := file_data ?s1 @ catalog_text ?c,
                   catalog_ref := Some ?c\<rparr>"
  let ?s3 = "?s2\<lparr>obj_offsets := (obj_offsets ?s2)[1 := file_tell ?s2],
                   file_data := file_data ?s2 @ page_list_text (page_count ?s2) (page_refs ?s2)\<rparr>"
  let ?s4 = "?s3\<lparr>xref_offset := file_tell ?s3, xref_size := last_obj ?s3 + 1,
                   file_data := file_data ?s3
                     @ xref_text (last_obj ?s3 + 1) (initial_offset ?s3) (obj_offsets ?s3)\<rparr>"
  let ?s5 = "?s4\<lparr>file_data := file_data ?s4
                     @ trailer_text (xref_size ?s4) ?c (xref_offset ?s4) uid\<rparr>"
  from assms(3) have c: "page_count s = length (page_refs s)" "4 \<le> last_obj s"
    "length (obj_offsets s) = last_obj s + 1" by (simp_all add: closable_def)
  have 1: "write_catalog ?c ?s1 = (None, ?s2)"
    using assms(1) by (intro write_catalog_open) simp
  have 2: "write_page_list ?s2 = (None, ?s3)"
    using assms(1,2) c by (intro write_page_list_open) simp_all
  have 3: "write_xref ?s3 = (None, ?s4)"
    using assms(1) c by (intro write_xref_open) simp_all
  have 4: "write_trailer ?c uid ?s4 = (None, ?s5)"
    using assms(1) obj_text_nonempty [of ?c "[''<</Type /Catalog /Pages 1 0 R>>'']"]
    by (intro write_trailer_open) (simp_all add: catalog_text_def)
  have 5: "?s5\<lparr>file_open := False\<rparr> = sealed uid s"
    by (simp add: sealed_def Let_def file_tell_def add.assoc)
  have "close uid s = seq [write_catalog ?c, write_page_list, write_xref, write_trailer ?c uid,
                           (\<lambda>s. (None, s\<lparr>file_open := False\<rparr>))] ?s1"
    using assms(2) by (simp add: close_def Let_def del: seq.simps)
  also have "\<dots> = (None, ?s5\<lparr>file_open := False\<rparr>)"
    by (simp only: seq.simps 1 2 3 4 prod.case option.case)
  finally show ?thesis by (simp only: 5)
qed
lemma write_page_list_fail:
  assumes "file_open s" and "1 \<le> page_count s"
    and "page_count s \<noteq> length (page_refs s) \<or> length (obj_offsets s) < 2"
  shows "fst (write_page_list s) \<in> {Some AssertionError, Some IndexError}"
  using assms
  by (auto simp: write_page_list_def check_closed_def assert_that_def set_page_list_offset_def)

lemma write_xref_fail:
  assumes "file_open s" and "\<not> (5 \<le> last_obj s \<and> length (obj_offsets s) = last_obj s + 1)"
  shows "fst (write_xref s) = Some AssertionError"
  using assms
  by (auto simp: write_xref_def check_closed_def assert_that_def)

lemma seq_fail_1:
  "a t = (None, t1) \<Longrightarrow> fst (b t1) = Some e \<Longrightarrow> fst (seq (a # b # as) t) = Some e"
  by (cases "b t1") simp

lemma seq_fail_2:
  "a t = (None, t1) \<Longrightarrow> b t1 = (None, t2) \<Longrightarrow> fst (c t2) = Some e
   \<Longrightarrow> fst (seq (a # b # c # as) t) = Some e"
  by (cases "c t2") simp

lemma close_not_closable:
  assumes "file_open s" and "1 \<le> page_count s" and "\<not> closable s"
  shows "fst (close uid s) \<in> {Some AssertionError, Some IndexError}"
proof -
  let ?c = "last_obj s + 1"
  let ?s1 = "s\<lparr>last_obj := ?c\<rparr>"
  let ?s2 = "?s1\<lparr>obj_offsets := obj_offsets ?s1 @ [file_tell ?s1],
                   file_data := file_data ?s1 @ catalog_text ?c,
                   catalog_ref := Some ?c\<rparr>"
  let ?s3 = "?s2\<lparr>obj_offsets := (obj_offsets ?s2)[1 := file_tell ?s2],
                   file_data := file_data ?s2 @ page_list_text (page_count ?s2) (page_refs ?s2)\<rparr>"
  let ?rest = "[write_trailer ?c uid, (\<lambda>s. (None, s\<lparr>file_open := False\<rparr>))]"
  have cl: "close uid s = seq (write_catalog ?c # write_page_list # write_xref # ?rest) ?s1"
    using assms(2) by (simp add: close_def Let_def del: seq.simps)
  have 1: "write_catalog ?c ?s1 = (None, ?s2)"
    using assms(1) by (intro write_catalog_open) simp
  show ?thesis
  proof (cases "page_count s \<noteq> length (page_refs s) \<or> obj_offsets s = []")
    case True
    then have "fst (write_page_list ?s2) \<in> {Some AssertionError, Some IndexError}"
      using assms(1,2) by (intro write_page_list_fail) auto
    then obtain e where "fst (write_page_list ?s2) = Some e" "e \<in> {AssertionError, IndexError}"
      by auto
    then show ?thesis
      unfolding cl
      using seq_fail_1 [of "write_catalog ?c" ?s1 ?s2 write_page_list e, OF 1] by auto
  next
    case False
    then have 2: "write_page_list ?s2 = (None, ?s3)"
      using assms(1,2) by (intro write_page_list_open) (auto simp: Suc_le_eq)
    have "fst (write_xref ?s3) = Some AssertionError"
      using assms(1,3) False by (intro write_xref_fail) (auto simp: closable_def)
    then show ?thesis
      unfolding cl
      using seq_fail_2 [of "write_catalog ?c" ?s1 ?s2 write_page_list ?s3 write_xref
                           AssertionError, OF 1 2] by simp
  qed
qed

lemma close_None:
  assumes "close uid s = (None, s')"
  shows "file_open s" and "1 \<le> page_count s" and "closable s" and "s' = sealed uid s"
proof -
  show p: "1 \<le> page_count s"
    using assms close_no_pages [of s uid] by (cases "page_count s < 1") auto
  show o: "file_open s"
    using assms p close_closed [of s uid] by (cases "file_open s") auto
  show c: "closable s"
    using assms o p close_not_closable [of s uid] by (cases "closable s") auto
  show "s' = sealed uid s"
    using assms close_open [OF o p c, of uid] by simp
qed
section \<open>Whole sessions: the invariant of an open writer\<close>

text \<open>
  \<open>writer_inv\<close> holds of a new writer and every \<^verbatim>\<open>add_page\<close> that returns keeps it: the
  identifiers are \<open>3 * page_count + 1\<close>, the page references are \<open>2, 5, 8, \<dots>\<close>, the ledger
  has an entry for every identifier, and every entry from 2 on lies after the preamble and
  is the position of the header line of its object.
\<close>

lemma init_eq:
  "init start =
     (None, \<lparr>file_open = True, file_start = start, file_data = preamble, last_obj = 1,
             page_refs = [], obj_offsets = [start, 8], page_count = 0, xref_offset = 0,
             xref_size = 0, initial_offset = start, catalog_ref = None\<rparr>)"
  by (simp add: init_def save_offset_open writeln_open preamble_def file_tell_def)

lemma new_writer_eq:
  "new_writer start =
     \<lparr>file_open = True, file_start = start, file_data = preamble, last_obj = 1,
      page_refs = [], obj_offsets = [start, 8], page_count = 0, xref_offset = 0,
      xref_size = 0, initial_offset = start, catalog_ref = None\<rparr>"
  by (simp add: new_writer_def init_eq)

lemma init_succeeds: "fst (init start) = None"
  by (simp add: init_eq)

lemma new_writer_simps [simp]:
  "file_open (new_writer start)"
  "file_start (new_writer start) = start"
  "file_data (new_writer start) = preamble"
  "last_obj (new_writer start) = 1"
  "page_refs (new_writer start) = []"
  "obj_offsets (new_writer start) = [start, 8]"
  "page_count (new_writer start) = 0"
  "initial_offset (new_writer start) = start"
  by (simp_all add: new_writer_eq)

lemma preamble_nonempty: "preamble \<noteq> []"
  by (simp add: preamble_def line_def)

lemma writer_inv_new: "writer_inv start (new_writer start)"
  by (auto simp: writer_inv_def preamble_nonempty)

lemma written_at_append:
  assumes "written_at s offset bytes" and "file_start s' = file_start s"
    and "file_data s' = file_data s @ rest"
  shows "written_at s' offset bytes"
proof -
  let ?k = "offset - file_start s"
  from assms(1) have t: "take (length bytes) (drop ?k (file_data s)) = bytes"
    and le: "file_start s \<le> offset" by (simp_all add: written_at_def)
  from t have "length (take (length bytes) (drop ?k (file_data s))) = length bytes" by simp
  then have l: "length bytes \<le> length (file_data s) - ?k" by simp
  have "take (length bytes) (drop ?k (file_data s @ rest)) = bytes"
    using t l by simp
  with le assms(2,3) show ?thesis by (simp add: written_at_def)
qed

lemma written_at_end:
  assumes "file_start s' = file_start s" and "file_data s' = file_data s @ pre @ bytes @ post"
    and "offset = file_tell s + length pre"
  shows "written_at s' offset bytes"
  using assms by (simp add: written_at_def file_tell_def)

lemma obj_text_header: "obj_text ref body = line (str_nat ref @ '' 0 obj'') @ concat (map line (body @ [''endobj'']))"
  by (simp add: obj_text_def)

lemma written_at_prefix:
  "written_at s offset (xs @ ys) \<Longrightarrow> written_at s offset xs"
proof -
  assume a: "written_at s offset (xs @ ys)"
  let ?d = "drop (offset - file_start s) (file_data s)"
  from a have t: "take (length xs + length ys) ?d = xs @ ys" by (simp add: written_at_def)
  have "take (length xs) ?d = take (length xs) (take (length xs + length ys) ?d)"
    by (simp add: min_def)
  also have "\<dots> = xs" by (simp add: t)
  finally show ?thesis using a by (simp add: written_at_def)
qed

lemma object_at_obj_text:
  "written_at s offset (obj_text ref body) \<Longrightarrow> object_at s ref offset"
  unfolding object_at_def obj_text_header by (rule written_at_prefix)
lemma add_page_None:
  assumes "add_page j w h r g s = (None, s')"
  shows "file_open s"
    and "\<exists>wp hp. pixels_to_points w r = Inr wp \<and> pixels_to_points h r = Inr hp
                 \<and> s' = added (jpeg_bytes j) w h wp hp g s"
  using assms by (auto simp: add_page_eq split: if_splits sum.splits)

lemma added_simps [simp]:
  "file_open (added d w h wp hp g s) = file_open s"
  "file_start (added d w h wp hp g s) = file_start s"
  "initial_offset (added d w h wp hp g s) = initial_offset s"
  "last_obj (added d w h wp hp g s) = last_obj s + 3"
  "page_count (added d w h wp hp g s) = page_count s + 1"
  "page_refs (added d w h wp hp g s) = page_refs s @ [last_obj s + 1]"
  "obj_offsets (added d w h wp hp g s) =
     obj_offsets s @ [file_tell s,
                      file_tell s + length (page_text (last_obj s + 1) wp hp),
                      file_tell s + length (page_text (last_obj s + 1) wp hp)
                        + length (image_text (last_obj s + 2) w h g d)]"
  "file_data (added d w h wp hp g s) =
     file_data s @ page_text (last_obj s + 1) wp hp @ image_text (last_obj s + 2) w h g d
       @ contents_text (last_obj s + 3) wp hp"
  by (simp_all add: added_def Let_def allocated_def add.assoc numeral_2_eq_2 numeral_3_eq_3)

lemma added_written:
  "written_at (added d w h wp hp g s) (file_tell s) (page_text (last_obj s + 1) wp hp)"
  "written_at (added d w h wp hp g s) (file_tell s + length (page_text (last_obj s + 1) wp hp))
     (image_text (last_obj s + 2) w h g d)"
  "written_at (added d w h wp hp g s)
     (file_tell s + length (page_text (last_obj s + 1) wp hp)
        + length (image_text (last_obj s + 2) w h g d))
     (contents_text (last_obj s + 3) wp hp)"
proof -
  let ?s' = "added d w h wp hp g s"
  let ?P = "page_text (last_obj s + 1) wp hp"
  let ?I = "image_text (last_obj s + 2) w h g d"
  let ?C = "contents_text (last_obj s + 3) wp hp"
  show "written_at ?s' (file_tell s) ?P"
    by (rule written_at_end [where s = s and pre = "[]" and post = "?I @ ?C"]) simp_all
  show "written_at ?s' (file_tell s + length ?P) ?I"
    by (rule written_at_end [where s = s and pre = ?P and post = ?C]) simp_all
  show "written_at ?s' (file_tell s + length ?P + length ?I) ?C"
    by (rule written_at_end [where s = s and pre = "?P @ ?I" and post = "[]"]) simp_all
qed

lemma added_keeps_written:
  "written_at s offset bytes \<Longrightarrow> written_at (added d w h wp hp g s) offset bytes"
  by (erule written_at_append) simp_all

lemma added_inv:
  assumes "writer_inv start s"
  shows "writer_inv start (added d w h wp hp g s)"
proof -
  let ?s' = "added d w h wp hp g s"
  let ?n = "last_obj s"
  let ?P = "page_text (?n + 1) wp hp"
  let ?I = "image_text (?n + 2) w h g d"
  let ?C = "contents_text (?n + 3) wp hp"
  from assms have inv: "file_open s" "file_start s = start" "initial_offset s = start"
    "?n = 3 * page_count s + 1" "page_refs s = map (\<lambda>k. 3 * k + 2) [0..<page_count s]"
    "length (obj_offsets s) = ?n + 1" "obj_offsets s ! 0 = start" "file_data s \<noteq> []"
    and old: "\<And>i. 2 \<le> i \<Longrightarrow> i \<le> ?n \<Longrightarrow>
                start < obj_offsets s ! i \<and> object_at s i (obj_offsets s ! i)"
    by (simp_all add: writer_inv_def)
  have tell: "start < file_tell s" using inv(2,8) by (simp add: file_tell_def)
  have new: "start < obj_offsets ?s' ! i \<and> object_at ?s' i (obj_offsets ?s' ! i)"
    if i: "2 \<le> i" "i \<le> ?n + 3" for i
  proof -
    consider "i \<le> ?n" | "i = ?n + 1" | "i = ?n + 2" | "i = ?n + 3" using i by linarith
    then show ?thesis
    proof cases
      case 1
      then have "obj_offsets ?s' ! i = obj_offsets s ! i"
        using inv(6) by (simp add: nth_append)
      moreover have "object_at ?s' i (obj_offsets s ! i)"
        using old [OF i(1) 1] unfolding object_at_def by (intro added_keeps_written) simp
      ultimately show ?thesis using old [OF i(1) 1] by simp
    next
      case 2
      then have "obj_offsets ?s' ! i = file_tell s"
        using inv(6) by (simp add: nth_append)
      moreover have "object_at ?s' (?n + 1) (file_tell s)"
        using added_written(1) [of d w h wp hp g s] unfolding page_text_def
        by (rule object_at_obj_text)
      ultimately show ?thesis using tell 2 by simp
    next
      case 3
      then have "obj_offsets ?s' ! i = file_tell s + length ?P"
        using inv(6) by (simp add: nth_append)
      moreover have "object_at ?s' (?n + 2) (file_tell s + length ?P)"
        using added_written(2) [of d w h wp hp g s] unfolding image_text_def
        by (rule object_at_obj_text)
      ultimately show ?thesis using tell 3 by simp
    next
      case 4
      then have "obj_offsets ?s' ! i = file_tell s + length ?P + length ?I"
        using inv(6) by (simp add: nth_append)
      moreover have "object_at ?s' (?n + 3) (file_tell s + length ?P + length ?I)"
        using added_written(3) [of d w h wp hp g s] unfolding contents_text_def
        by (rule object_at_obj_text)
      ultimately show ?thesis using tell 4 by simp
    qed
  qed
  have "obj_offsets ?s' ! 0 = start"
    using inv(6,7) by (simp add: nth_append)
  moreover have "page_refs ?s' = map (\<lambda>k. 3 * k + 2) [0..<page_count ?s']"
    using inv(4,5) by simp
  ultimately show ?thesis
    using inv new by (simp add: writer_inv_def)
qed

lemma add_page_inv:
  assumes "writer_inv start s" and "add_page j w h r g s = (None, s')"
  shows "writer_inv start s'" and "page_count s' = page_count s + 1"
  using add_page_None(2) [OF assms(2)] added_inv [OF assms(1)] by auto

lemma add_pages_Nil [simp]: "add_pages [] s = (None, s)"
  by (simp add: add_pages_def)

lemma add_pages_Cons:
  "add_pages ((j, w, h, r, g) # ps) s =
     (case add_page j w h r g s of (None, s') \<Rightarrow> add_pages ps s' | (Some e, s') \<Rightarrow> (Some e, s'))"
  by (simp add: add_pages_def split: prod.split option.split)

lemma add_pages_inv:
  assumes "writer_inv start s" and "add_pages pages s = (None, s')"
  shows "writer_inv start s' \<and> page_count s' = page_count s + length pages"
  using assms
proof (induction pages arbitrary: s)
  case Nil
  then show ?case by simp
next
  case (Cons p ps)
  obtain j w h r g where p: "p = (j, w, h, r, g)" by (cases p)
  from Cons.prems(2) obtain s1 where 1: "add_page j w h r g s = (None, s1)"
    and 2: "add_pages ps s1 = (None, s')"
    by (auto simp: p add_pages_Cons split: prod.splits option.splits)
  from add_page_inv [OF Cons.prems(1) 1] Cons.IH [OF _ 2] show ?case by simp
qed
text \<open>The state after \<^verbatim>\<open>close\<close>, and what the ledger and the file hold then.\<close>

lemma sealed_simps [simp]:
  "file_open (sealed uid s) = False"
  "file_start (sealed uid s) = file_start s"
  "initial_offset (sealed uid s) = initial_offset s"
  "last_obj (sealed uid s) = last_obj s + 1"
  "page_count (sealed uid s) = page_count s"
  "page_refs (sealed uid s) = page_refs s"
  "xref_size (sealed uid s) = last_obj s + 2"
  "xref_offset (sealed uid s) =
     file_tell s + length (catalog_text (last_obj s + 1))
       + length (page_list_text (page_count s) (page_refs s))"
  "obj_offsets (sealed uid s) =
     (obj_offsets s @ [file_tell s])[1 := file_tell s + length (catalog_text (last_obj s + 1))]"
  "file_data (sealed uid s) =
     file_data s @ catalog_text (last_obj s + 1)
       @ page_list_text (page_count s) (page_refs s)
       @ xref_text (last_obj s + 2) (initial_offset s) (obj_offsets (sealed uid s))
       @ trailer_text (last_obj s + 2) (last_obj s + 1) (xref_offset (sealed uid s)) uid"
  by (simp_all add: sealed_def Let_def add.assoc)

lemma writer_inv_closable:
  assumes "writer_inv start s" and "1 \<le> page_count s"
  shows "closable s"
  using assms by (simp add: writer_inv_def closable_def)

lemma close_writer_inv:
  assumes "writer_inv start s" and "1 \<le> page_count s"
  shows "close uid s = (None, sealed uid s)"
  using assms writer_inv_closable [OF assms] by (intro close_open) (simp_all add: writer_inv_def)

lemma sealed_offsets:
  assumes "writer_inv start s" and "1 \<le> page_count s"
  shows "length (obj_offsets (sealed uid s)) = 3 * page_count s + 3"
    and "obj_offsets (sealed uid s) ! 0 = start"
    and "\<And>i. 1 \<le> i \<Longrightarrow> i < 3 * page_count s + 3 \<Longrightarrow>
           start < obj_offsets (sealed uid s) ! i
           \<and> object_at (sealed uid s) i (obj_offsets (sealed uid s) ! i)"
proof -
  let ?s' = "sealed uid s"
  let ?n = "last_obj s"
  let ?t = "file_tell s"
  let ?Cat = "catalog_text (?n + 1)"
  let ?PL = "page_list_text (page_count s) (page_refs s)"
  let ?rest = "xref_text (?n + 2) (initial_offset s) (obj_offsets ?s')
               @ trailer_text (?n + 2) (?n + 1) (xref_offset ?s') uid"
  from assms(1) have inv: "file_start s = start" "?n = 3 * page_count s + 1"
    "length (obj_offsets s) = ?n + 1" "obj_offsets s ! 0 = start" "file_data s \<noteq> []"
    and old: "\<And>i. 2 \<le> i \<Longrightarrow> i \<le> ?n \<Longrightarrow>
                start < obj_offsets s ! i \<and> object_at s i (obj_offsets s ! i)"
    by (simp_all add: writer_inv_def)
  have tell: "start < ?t" using inv(1,5) by (simp add: file_tell_def)
  show "length (obj_offsets ?s') = 3 * page_count s + 3"
    using inv(2,3) by simp
  show "obj_offsets ?s' ! 0 = start"
    using inv(3,4) by (simp add: nth_append)
  fix i assume i: "1 \<le> i" "i < 3 * page_count s + 3"
  then consider "i = 1" | "2 \<le> i" "i \<le> ?n" | "i = ?n + 1" using inv(2) by linarith
  then show "start < obj_offsets ?s' ! i \<and> object_at ?s' i (obj_offsets ?s' ! i)"
  proof cases
    case 1
    have "obj_offsets ?s' ! 1 = ?t + length ?Cat"
      using inv(3) by simp
    moreover have "written_at ?s' (?t + length ?Cat) ?PL"
      by (rule written_at_end [where s = s and pre = ?Cat and post = ?rest]) simp_all
    then have "object_at ?s' 1 (?t + length ?Cat)"
      unfolding page_list_text_def by (rule object_at_obj_text)
    ultimately show ?thesis using tell 1 by simp
  next
    case 2
    then have "obj_offsets ?s' ! i = obj_offsets s ! i"
      using inv(3) by (simp add: nth_append)
    moreover have "object_at ?s' i (obj_offsets s ! i)"
      using old [OF 2] unfolding object_at_def
      by (elim conjE written_at_append) simp_all
    ultimately show ?thesis using old [OF 2] by simp
  next
    case 3
    then have "obj_offsets ?s' ! i = ?t"
      using inv(2,3) assms(2) by (simp add: nth_append)
    moreover have "written_at ?s' ?t ?Cat"
      by (rule written_at_end [where s = s and pre = "[]" and post = "?PL @ ?rest"]) simp_all
    then have "object_at ?s' (?n + 1) ?t"
      unfolding catalog_text_def by (rule object_at_obj_text)
    ultimately show ?thesis using tell 3 by simp
  qed
qed

lemma sealed_index:
  assumes "writer_inv start s"
  shows "drop (xref_offset (sealed uid s) - start) (file_data (sealed uid s))
         = xref_text (last_obj s + 2) start (obj_offsets (sealed uid s))
           @ trailer_text (last_obj s + 2) (last_obj s + 1) (xref_offset (sealed uid s)) uid"
proof -
  from assms have inv: "file_start s = start" "initial_offset s = start"
    by (simp_all add: writer_inv_def)
  show ?thesis
    by (simp add: inv file_tell_def)
qed

lemma session_state:
  assumes "pages \<noteq> []" and "fst (add_pages pages (new_writer start)) = None"
  shows "writer_inv start (snd (add_pages pages (new_writer start)))"
    and "page_count (snd (add_pages pages (new_writer start))) = length pages"
    and "close uid (snd (add_pages pages (new_writer start)))
           = (None, sealed uid (snd (add_pages pages (new_writer start))))"
    and "session start pages uid = sealed uid (snd (add_pages pages (new_writer start)))"
proof -
  let ?s1 = "snd (add_pages pages (new_writer start))"
  have a: "add_pages pages (new_writer start) = (None, ?s1)"
    using assms(2) by (simp add: prod_eq_iff)
  from add_pages_inv [OF writer_inv_new a]
  show inv: "writer_inv start ?s1" and n: "page_count ?s1 = length pages" by simp_all
  have "1 \<le> page_count ?s1" using assms(1) n by (cases pages) simp_all
  with inv show c: "close uid ?s1 = (None, sealed uid ?s1)" by (rule close_writer_inv)
  then show "session start pages uid = sealed uid ?s1" by (simp add: session_def)
qed

lemma add_page_succeeds:
  assumes "file_open s" and "take 2 (jpeg_bytes j) = SOI" and "120 \<le> length (jpeg_bytes j)"
    and "1 \<le> w" "w < 2 ^ 43" "1 \<le> h" "h < 2 ^ 43" "1 \<le> r" "r < 2 ^ 43"
  shows "add_page j w h r g s
           = (None, added (jpeg_bytes j) w h (72 * w div r) (72 * h div r) g s)"
  using assms by (simp add: add_page_eq pixels_to_points_exact)

lemma example_jpeg_valid:
  "take 2 (jpeg_bytes (Str example_jpeg)) = SOI" "120 \<le> length (jpeg_bytes (Str example_jpeg))"
  by (simp_all add: example_jpeg_def jpeg_bytes_def SOI_def)


lemma pixels_to_points_errors:
  "pixels_to_points p r = Inl e \<Longrightarrow> e = OverflowError \<or> e = ZeroDivisionError"
  by (auto simp: pixels_to_points_def float_of_int_def int_of_float_def Let_def
        split: sum.splits if_splits)

lemma SOI_size_2: "SOI_size = 2"
  by (simp add: SOI_size_def SOI_def)

lemma session_closed:
  assumes "pages \<noteq> []" and "fst (add_pages pages (new_writer start)) = None"
  shows "\<not> file_open (session start pages uid)" and "page_count (session start pages uid) = length pages"
  using session_state [OF assms] by simp_all

lemma example_session:
  "fst (add_pages [(Str example_jpeg, 800, 600, 150, False)] (new_writer start)) = None"
  by (simp add: add_pages_Cons add_page_succeeds example_jpeg_valid)

text \<open>
  A session of two pages that differ in every argument: the first payload is a byte
  block, the second a readable stream.
\<close>

lemma example_stream_valid:
  "take 2 (jpeg_bytes (File \<lparr>content = example_jpeg, pos = 0\<rparr>)) = SOI"
  "120 \<le> length (jpeg_bytes (File \<lparr>content = example_jpeg, pos = 0\<rparr>))"
  by (simp_all add: example_jpeg_def jpeg_bytes_def SOI_def)

lemma example_session_two_pages:
  "fst (add_pages [(Str example_jpeg, 800, 600, 150, False),
                   (File \<lparr>content = example_jpeg, pos = 0\<rparr>, 572, 600, 96, True)]
          (new_writer start)) = None"
proof -
  let ?s1 = "added (jpeg_bytes (Str example_jpeg)) 800 600 384 288 False (new_writer start)"
  let ?f = "File \<lparr>content = example_jpeg, pos = 0\<rparr>"
  have o: "file_open (new_writer start)"
    using writer_inv_new [of start] by (simp add: writer_inv_def)
  have 1: "add_page (Str example_jpeg) 800 600 150 False (new_writer start) = (None, ?s1)"
    using add_page_succeeds [of "new_writer start" "Str example_jpeg" 800 600 150 False] o
    by (simp add: example_jpeg_valid)
  have "writer_inv start ?s1" by (rule added_inv [OF writer_inv_new])
  then have o': "file_open ?s1" by (simp add: writer_inv_def)
  have 2: "add_page ?f 572 600 96 True ?s1
             = (None, added (jpeg_bytes ?f) 572 600 429 450 True ?s1)"
    using add_page_succeeds [of ?s1 ?f 572 600 96 True] o'
    by (simp add: example_stream_valid)
  show ?thesis by (simp add: add_pages_Cons 1 2)
qed


text \<open>A sealed writer stays sealed, and every call on it raises.\<close>

lemma closed_stays_closed:
  assumes "\<not> file_open s" and "1 \<le> page_count s" and "do_call c s = (r, s')"
  shows "r \<noteq> None" and "\<not> file_open s'" and "1 \<le> page_count s'"
proof -
  have "r \<noteq> None \<and> \<not> file_open s' \<and> 1 \<le> page_count s'"
  proof (cases c)
    case (Add_page j w h res g)
    with assms show ?thesis
      by (auto simp: add_page_eq split: if_splits sum.splits)
  next
    case (Close uid)
    with assms close_closed [of s uid] show ?thesis by auto
  qed
  then show "r \<noteq> None" and "\<not> file_open s'" and "1 \<le> page_count s'" by simp_all
qed

lemma run_closed:
  assumes "\<not> file_open s" and "1 \<le> page_count s" and "run calls s = (outs, s')"
  shows "(\<forall>r \<in> set outs. r \<noteq> None) \<and> \<not> file_open s' \<and> 1 \<le> page_count s'"
  using assms
proof (induction calls arbitrary: s outs s')
  case Nil
  then show ?case by simp
next
  case (Cons c cs)
  obtain r s1 where 1: "do_call c s = (r, s1)" by (cases "do_call c s")
  obtain rs s2 where 2: "run cs s1 = (rs, s2)" by (cases "run cs s1")
  from Cons.prems(3) 1 2 have o: "outs = r # rs" and s': "s' = s2" by simp_all
  note c = closed_stays_closed [OF Cons.prems(1,2) 1]
  from Cons.IH [OF c(2,3) 2] c(1) show ?case by (simp add: o s')
qed


lemma add_page_conversion_error:
  assumes "take 2 (jpeg_bytes j) = SOI" and "120 \<le> length (jpeg_bytes j)"
    and "1 \<le> w" and "1 \<le> h" and "1 \<le> r" and "pixels_to_points w r = Inl e"
  shows "add_page j w h r g s = (Some e, allocated s)"
  using assms by (simp add: add_page_eq)


text \<open>The number of digits of a numeral, and the fields of an index line.\<close>

lemma length_str_nat_le: "0 < k \<Longrightarrow> n < 10 ^ k \<Longrightarrow> length (str_nat n) \<le> k"
proof (induction k arbitrary: n)
  case 0
  then show ?case by simp
next
  case (Suc k)
  show ?case
  proof (cases "n < 10")
    case True
    then show ?thesis by (simp add: str_nat.simps [of n])
  next
    case False
    then have k: "0 < k" using Suc.prems(2) by (cases k) simp_all
    have "n div 10 < 10 ^ k" using Suc.prems(2) by (simp add: div_less_iff_less_mult mult.commute)
    from Suc.IH [OF k this] False show ?thesis by (simp add: str_nat.simps [of n])
  qed
qed

lemma length_str_nat_gt: "10 ^ k \<le> n \<Longrightarrow> k < length (str_nat n)"
proof (induction k arbitrary: n)
  case 0
  then show ?case by (simp add: str_nat.simps [of n])
next
  case (Suc k)
  then have n: "\<not> n < 10" by (cases k) (simp_all add: not_less order_trans [OF _ Suc.prems])
  have "10 ^ k \<le> n div 10" using Suc.prems by (simp add: less_eq_div_iff_mult_less_eq mult.commute)
  from Suc.IH [OF this] n show ?case by (simp add: str_nat.simps [of n])
qed

lemma length_zero_pad: "length (zero_pad w n) = max w (length (str_nat n))"
  by (simp add: zero_pad_def)

lemma zero_pad_ten_digits: "length (zero_pad 10 n) = 10 \<longleftrightarrow> n < 10 ^ 10"
proof
  assume a: "length (zero_pad 10 n) = 10"
  show "n < 10 ^ 10"
  proof (rule ccontr)
    assume "\<not> n < 10 ^ 10"
    then have "10 < length (str_nat n)" by (intro length_str_nat_gt) simp
    with a show False by (simp add: length_zero_pad)
  qed
next
  assume "n < 10 ^ 10"
  then have "length (str_nat n) \<le> 10" by (intro length_str_nat_le) simp_all
  then show "length (zero_pad 10 n) = 10" by (simp add: length_zero_pad)
qed

lemma zero_pad_generation:
  "zero_pad 5 65535 = ''65535''" "zero_pad 5 0 = ''00000''"
proof -
  have a: "str_nat 65535 = ''65535''" and b: "str_nat 0 = ''0''"
    by (simp_all add: str_nat.simps digit_char_def)
  have r: "replicate 4 x = [x, x, x, x]" for x :: char
    by (simp add: numeral_eq_Suc)
  show "zero_pad 5 65535 = ''65535''" by (simp add: zero_pad_def a)
  show "zero_pad 5 0 = ''00000''" by (simp add: zero_pad_def b r)
qed

lemma xref_line_eq:
  "xref_line start offset =
     line (zero_pad 10 offset @ (if offset = start then '' 65535 f '' else '' 00000 n ''))"
  by (simp add: xref_line_def zero_pad_generation)

lemma str_nat_ten_billion: "length (str_nat 10000000000) = 11"
  by (simp add: str_nat.simps)

text \<open>
  The length of the ledger across arbitrary calls: a call with a \<open>recoverable\<close> outcome
  keeps \<open>length obj_offsets = last_obj + 1\<close> and, on an open writer, \<open>writer_inv\<close>.
\<close>

lemma ledger_step:
  assumes "length (obj_offsets s) = last_obj s + 1" and "file_open s \<longrightarrow> writer_inv start s"
    and "do_call c s = (r, s')" and "recoverable r"
  shows "length (obj_offsets s') = last_obj s' + 1 \<and> (file_open s' \<longrightarrow> writer_inv start s')"
proof (cases c)
  case (Add_page j w h res g)
  with assms(3) have a: "add_page j w h res g s = (r, s')" by simp
  show ?thesis
  proof (cases r)
    case None
    with a add_page_None [of j w h res g s s'] obtain wp hp
      where "file_open s" and s': "s' = added (jpeg_bytes j) w h wp hp g s" by auto
    with assms(2) have "writer_inv start s'" by (simp add: added_inv)
    then show ?thesis by (simp add: writer_inv_def)
  next
    case (Some e)
    have "s' = s"
      using a assms(4) pixels_to_points_errors [of w res] pixels_to_points_errors [of h res]
      by (auto simp: add_page_eq Some split: if_splits sum.splits)
    with assms(1,2) show ?thesis by simp
  qed
next
  case (Close uid)
  with assms(3) have a: "close uid s = (r, s')" by simp
  show ?thesis
  proof (cases "page_count s < 1")
    case True
    with a close_no_pages [of s uid] assms(1,2) show ?thesis by simp
  next
    case False
    then have p: "1 \<le> page_count s" by simp
    show ?thesis
    proof (cases "file_open s")
      case True
      with assms(2) have inv: "writer_inv start s" by simp
      from a close_writer_inv [OF inv p, of uid] have "s' = sealed uid s" by simp
      with inv show ?thesis by (simp add: writer_inv_def)
    next
      case False
      with a close_closed [OF p False, of uid] assms(4) show ?thesis by auto
    qed
  qed
qed

lemma ledger_run:
  assumes "length (obj_offsets s) = last_obj s + 1" and "file_open s \<longrightarrow> writer_inv start s"
    and "run calls s = (outs, s')" and "\<forall>r \<in> set outs. recoverable r"
  shows "length (obj_offsets s') = last_obj s' + 1"
  using assms
proof (induction calls arbitrary: s outs s')
  case Nil
  then show ?case by simp
next
  case (Cons c cs)
  obtain r s1 where 1: "do_call c s = (r, s1)" by (cases "do_call c s")
  obtain rs s2 where 2: "run cs s1 = (rs, s2)" by (cases "run cs s1")
  from Cons.prems(3) 1 2 have o: "outs = r # rs" and s': "s' = s2" by simp_all
  from Cons.prems(4) have r: "recoverable r" and rs: "\<forall>r \<in> set rs. recoverable r"
    by (simp_all add: o)
  from ledger_step [OF Cons.prems(1,2) 1 r]
  have "length (obj_offsets s1) = last_obj s1 + 1" "file_open s1 \<longrightarrow> writer_inv start s1"
    by simp_all
  from Cons.IH [OF this 2 rs] show ?case by (simp add: s')
qed


lemma index_lines:
  assumes "offsets ! 0 = start" and "\<And>i. 1 \<le> i \<Longrightarrow> i < length offsets \<Longrightarrow> offsets ! i \<noteq> start"
  shows "map (xref_line start) offsets
         = map (\<lambda>i. line (zero_pad 10 (offsets ! i)
                           @ (if i = 0 then '' 65535 f '' else '' 00000 n '')))
             [0..<length offsets]"
proof -
  have "map (xref_line start) offsets = map (\<lambda>i. xref_line start (offsets ! i)) [0..<length offsets]"
    by (rule nth_equalityI) simp_all
  also have "\<dots> = map (\<lambda>i. line (zero_pad 10 (offsets ! i)
                           @ (if i = 0 then '' 65535 f '' else '' 00000 n '')))
             [0..<length offsets]"
  proof (rule map_cong [OF refl])
    fix i assume "i \<in> set [0..<length offsets]"
    then have i: "i < length offsets" by simp
    show "xref_line start (offsets ! i)
          = line (zero_pad 10 (offsets ! i) @ (if i = 0 then '' 65535 f '' else '' 00000 n ''))"
    proof (cases "i = 0")
      case True
      with assms(1) show ?thesis by (simp add: xref_line_eq)
    next
      case False
      with assms(2) [of i] i have "offsets ! i \<noteq> start" by simp
      with False show ?thesis by (simp add: xref_line_eq)
    qed
  qed
  finally show ?thesis .
qed

lemma session_offsets:
  assumes "pages \<noteq> []" and "fst (add_pages pages (new_writer start)) = None"
  shows "length (obj_offsets (session start pages uid)) = 3 * length pages + 3"
    and "obj_offsets (session start pages uid) ! 0 = start"
    and "\<And>i. 1 \<le> i \<Longrightarrow> i < 3 * length pages + 3 \<Longrightarrow>
           start < obj_offsets (session start pages uid) ! i
           \<and> object_at (session start pages uid) i (obj_offsets (session start pages uid) ! i)"
    and "drop (xref_offset (session start pages uid) - start) (file_data (session start pages uid))
         = xref_text (3 * length pages + 3) start (obj_offsets (session start pages uid))
           @ trailer_text (3 * length pages + 3) (3 * length pages + 2)
               (xref_offset (session start pages uid)) uid"
proof -
  let ?s1 = "snd (add_pages pages (new_writer start))"
  note st = session_state [OF assms]
  have n: "last_obj ?s1 = 3 * length pages + 1"
    using st(1,2) by (simp add: writer_inv_def)
  have e: "3 * length pages + 1 + 2 = 3 * length pages + 3"
    "3 * length pages + 1 + 1 = 3 * length pages + 2" by simp_all
  have 1: "1 \<le> page_count ?s1" using st(2) assms(1) by (cases pages) simp_all
  note so = sealed_offsets [OF st(1) 1, where uid = uid]
  show "length (obj_offsets (session start pages uid)) = 3 * length pages + 3"
    using so(1) by (simp add: st(2,4))
  show "obj_offsets (session start pages uid) ! 0 = start"
    using so(2) by (simp add: st(4))
  show "drop (xref_offset (session start pages uid) - start) (file_data (session start pages uid))
         = xref_text (3 * length pages + 3) start (obj_offsets (session start pages uid))
           @ trailer_text (3 * length pages + 3) (3 * length pages + 2)
               (xref_offset (session start pages uid)) uid"
    using sealed_index [OF st(1), of uid] by (simp only: st(4) n e)
  fix i assume "1 \<le> i" "i < 3 * length pages + 3"
  then show "start < obj_offsets (session start pages uid) ! i
           \<and> object_at (session start pages uid) i (obj_offsets (session start pages uid) ! i)"
    using so(3) [of i] by (simp add: st(2,4))
qed


lemma extends_refl: "extends s s"
  by (simp add: extends_def)

text \<open>
  What one call has written stays where it is: later calls only append to the file and
  to the ledger.
\<close>

lemma extends_trans: "extends s s1 \<Longrightarrow> extends s1 s2 \<Longrightarrow> extends s s2"
  by (auto simp: extends_def)

lemma extends_added: "extends s (added d w h wp hp g s)"
  by (simp add: extends_def)

lemma add_pages_extends: "add_pages pages s = (None, s') \<Longrightarrow> extends s s'"
proof (induction pages arbitrary: s)
  case Nil
  then show ?case by (simp add: extends_refl)
next
  case (Cons p ps)
  obtain j w h r g where p: "p = (j, w, h, r, g)" by (cases p)
  from Cons.prems obtain s1 where 1: "add_page j w h r g s = (None, s1)"
    and 2: "add_pages ps s1 = (None, s')"
    by (auto simp: p add_pages_Cons split: prod.splits option.splits)
  from add_page_None(2) [OF 1] have "extends s s1" by (auto simp: extends_added)
  with Cons.IH [OF 2] show ?case by (blast intro: extends_trans)
qed

lemma written_at_extends: "written_at s offset bytes \<Longrightarrow> extends s s' \<Longrightarrow> written_at s' offset bytes"
  by (auto simp: extends_def elim: written_at_append)

lemma nth_extends: "extends s s' \<Longrightarrow> i < length (obj_offsets s) \<Longrightarrow> obj_offsets s' ! i = obj_offsets s ! i"
  by (auto simp: extends_def nth_append)

lemma pages_written:
  assumes "writer_inv start s" and "add_pages pages s = (None, s')"
    and "k < length pages" and "pages ! k = (j, w, h, r, g)"
  shows "\<exists>wp hp. pixels_to_points w r = Inr wp \<and> pixels_to_points h r = Inr hp
           \<and> written_at s' (obj_offsets s' ! (3 * (page_count s + k) + 2))
                (page_text (3 * (page_count s + k) + 2) wp hp)
           \<and> written_at s' (obj_offsets s' ! (3 * (page_count s + k) + 3))
                (image_text (3 * (page_count s + k) + 3) w h g (jpeg_bytes j))"
  using assms
proof (induction pages arbitrary: s k)
  case Nil
  then show ?case by simp
next
  case (Cons p ps)
  obtain j0 w0 h0 r0 g0 where p: "p = (j0, w0, h0, r0, g0)" by (cases p)
  from Cons.prems(2) obtain s1 where 1: "add_page j0 w0 h0 r0 g0 s = (None, s1)"
    and 2: "add_pages ps s1 = (None, s')"
    by (auto simp: p add_pages_Cons split: prod.splits option.splits)
  note inv1 = add_page_inv [OF Cons.prems(1) 1]
  show ?case
  proof (cases k)
    case 0
    with Cons.prems(4) have e: "j0 = j" "w0 = w" "h0 = h" "r0 = r" "g0 = g" by (simp_all add: p)
    from add_page_None(2) [OF 1] obtain wp hp
      where c: "pixels_to_points w r = Inr wp" "pixels_to_points h r = Inr hp"
        and s1: "s1 = added (jpeg_bytes j) w h wp hp g s" by (auto simp: e)
    from Cons.prems(1) have n: "last_obj s = 3 * page_count s + 1"
      and l: "length (obj_offsets s) = last_obj s + 1" by (simp_all add: writer_inv_def)
    have i2: "3 * (page_count s + k) + 2 = last_obj s + 1"
      and i3: "3 * (page_count s + k) + 3 = last_obj s + 2"
      using n 0 by simp_all
    have ext: "extends s1 s'" using 2 by (rule add_pages_extends)
    have o2: "obj_offsets s' ! (last_obj s + 1) = file_tell s"
      using nth_extends [OF ext, of "last_obj s + 1"] l by (simp add: s1 nth_append)
    have o3: "obj_offsets s' ! (last_obj s + 2)
                = file_tell s + length (page_text (last_obj s + 1) wp hp)"
      using nth_extends [OF ext, of "last_obj s + 2"] l by (simp add: s1 nth_append)
    have "written_at s' (file_tell s) (page_text (last_obj s + 1) wp hp)"
      using added_written(1) [of "jpeg_bytes j" w h wp hp g s] ext
      unfolding s1 [symmetric] by (rule written_at_extends)
    moreover have "written_at s' (file_tell s + length (page_text (last_obj s + 1) wp hp))
                     (image_text (last_obj s + 2) w h g (jpeg_bytes j))"
      using added_written(2) [of "jpeg_bytes j" w h wp hp g s] ext
      unfolding s1 [symmetric] by (rule written_at_extends)
    ultimately show ?thesis
      using c unfolding i2 i3 o2 o3 by blast
  next
    case (Suc k')
    with Cons.prems(3,4) have k': "k' < length ps" "ps ! k' = (j, w, h, r, g)" by simp_all
    from Cons.IH [OF inv1(1) 2 k'] show ?thesis
      by (simp add: inv1(2) Suc)
  qed
qed

lemma sealed_keeps_written:
  assumes "written_at s offset bytes"
  shows "written_at (sealed uid s) offset bytes"
  using assms by (rule written_at_append) simp_all

lemma sealed_page_list:
  assumes "1 \<le> length (obj_offsets s)"
  shows "written_at (sealed uid s) (obj_offsets (sealed uid s) ! 1)
           (page_list_text (page_count s) (page_refs s))"
proof -
  let ?Cat = "catalog_text (last_obj s + 1)"
  from assms obtain x xs where "obj_offsets s = x # xs" by (cases "obj_offsets s") simp_all
  then have "obj_offsets (sealed uid s) ! 1 = file_tell s + length ?Cat"
    by simp
  moreover have "written_at (sealed uid s) (file_tell s + length ?Cat)
                   (page_list_text (page_count s) (page_refs s))"
    by (rule written_at_end [where s = s and pre = ?Cat
          and post = "xref_text (last_obj s + 2) (initial_offset s) (obj_offsets (sealed uid s))
               @ trailer_text (last_obj s + 2) (last_obj s + 1) (xref_offset (sealed uid s)) uid"])
       simp_all
  ultimately show ?thesis by simp
qed


section \<open>The claims\<close>

subsection \<open>C1: the cross-reference table\<close>

text \<open>
  C1: for every sequence of \<open>N \<ge> 1\<close> \<^verbatim>\<open>add_page\<close> calls that all return, on a new writer,
  the following \<^verbatim>\<open>close\<close> returns too; the ledger and the declared size of the index have
  \<open>3 * N + 3\<close> entries; the bytes of the file from the recorded position of the index on are
  the index, with one line per ledger entry, followed by the trailer; and for every
  identifier from 1 to \<open>3 * N + 2\<close> the header line of that object begins in the file at
  the offset recorded for it.
\<close>

theorem xref_entries_and_offsets:
  assumes "pages \<noteq> []" and "fst (add_pages pages (new_writer start)) = None"
  shows "fst (close uid (snd (add_pages pages (new_writer start)))) = None
    \<and> length (obj_offsets (session start pages uid)) = 3 * length pages + 3
    \<and> xref_size (session start pages uid) = 3 * length pages + 3
    \<and> drop (xref_offset (session start pages uid) - start) (file_data (session start pages uid))
        = xref_text (3 * length pages + 3) start (obj_offsets (session start pages uid))
          @ trailer_text (3 * length pages + 3) (3 * length pages + 2)
              (xref_offset (session start pages uid)) uid
    \<and> (\<forall>i. 1 \<le> i \<and> i < 3 * length pages + 3 \<longrightarrow>
           object_at (session start pages uid) i (obj_offsets (session start pages uid) ! i))"
proof -
  let ?s1 = "snd (add_pages pages (new_writer start))"
  note st = session_state [OF assms]
  have n: "last_obj ?s1 = 3 * length pages + 1"
    using st(1,2) by (simp add: writer_inv_def)
  have e: "3 * length pages + 1 + 2 = 3 * length pages + 3"
    "3 * length pages + 1 + 1 = 3 * length pages + 2" by simp_all
  have 1: "pages \<noteq> [] \<Longrightarrow> 1 \<le> page_count ?s1" using st(2) by (cases pages) simp_all
  note so = sealed_offsets [OF st(1) 1 [OF assms(1)], where uid = uid]
  have "fst (close uid ?s1) = None" by (simp add: st(3))
  moreover have "length (obj_offsets (session start pages uid)) = 3 * length pages + 3"
    using so(1) by (simp add: st(2,4))
  moreover have "xref_size (session start pages uid) = 3 * length pages + 3"
    by (simp add: st(4) n)
  moreover have "drop (xref_offset (session start pages uid) - start)
                   (file_data (session start pages uid))
        = xref_text (3 * length pages + 3) start (obj_offsets (session start pages uid))
          @ trailer_text (3 * length pages + 3) (3 * length pages + 2)
              (xref_offset (session start pages uid)) uid"
    using sealed_index [OF st(1), of uid] by (simp only: st(4) n e)
  moreover have "\<forall>i. 1 \<le> i \<and> i < 3 * length pages + 3 \<longrightarrow>
           object_at (session start pages uid) i (obj_offsets (session start pages uid) ! i)"
    using so(3) by (simp add: st(2,4))
  ultimately show ?thesis by (intro conjI)
qed

theorem xref_entries_and_offsets_witness:
  "[(Str example_jpeg, 800, 600, 150, False)] \<noteq> []
   \<and> fst (add_pages [(Str example_jpeg, 800, 600, 150, False)] (new_writer 0)) = None
   \<and> fst (close ''u'' (snd (add_pages [(Str example_jpeg, 800, 600, 150, False)] (new_writer 0))))
       = None
   \<and> length (obj_offsets (session 0 [(Str example_jpeg, 800, 600, 150, False)] ''u'')) = 6
   \<and> object_at (session 0 [(Str example_jpeg, 800, 600, 150, False)] ''u'') 5
        (obj_offsets (session 0 [(Str example_jpeg, 800, 600, 150, False)] ''u'') ! 5)"
proof -
  let ?pages = "[(Str example_jpeg, 800, 600, 150, False)]"
  have h1: "?pages \<noteq> []" by simp
  have h2: "fst (add_pages ?pages (new_writer 0)) = None"
    by (simp add: add_pages_Cons add_page_succeeds example_jpeg_valid)
  from xref_entries_and_offsets [OF h1 h2, of "''u''"] h1 h2 show ?thesis by simp
qed

subsection \<open>C2: validation errors leave the writer as it was\<close>

text \<open>
  C2: when the arguments of \<^verbatim>\<open>add_page\<close> fail validation (the payload does not begin with
  the two-byte marker, or is shorter than the minimum length, or the width, height or
  resolution is below 1), the call raises \<^verbatim>\<open>ValueError\<close> with the message of the first
  check that fails, and the state it leaves is the state it found: nothing was written and
  page count, page references, last identifier and ledger are as before. This holds in
  every state of the writer, open or not.
\<close>

theorem add_page_validation_error:
  assumes "take SOI_size (jpeg_bytes jpegdata) \<noteq> SOI \<or> length (jpeg_bytes jpegdata) < min_jpeg_len
           \<or> width_px < 1 \<or> height_px < 1 \<or> resolution < 1"
  shows "add_page jpegdata width_px height_px resolution grayscale s =
     (Some (ValueError
        (if take SOI_size (jpeg_bytes jpegdata) \<noteq> SOI then ''Invalid image data.''
         else if length (jpeg_bytes jpegdata) < min_jpeg_len then ''Invalid image length.''
         else if width_px < 1 then ''Invalid image width.''
         else if height_px < 1 then ''Invalid image height.''
         else ''Invalid image resolution.'')), s)"
  using assms by (auto simp: add_page_eq SOI_size_2 min_jpeg_len_def)

theorem add_page_validation_error_witness:
  "take SOI_size (jpeg_bytes (Str (replicate 10 (CHR 0x00)))) \<noteq> SOI
   \<and> add_page (Str (replicate 10 (CHR 0x00))) 800 600 72 False (new_writer 0)
       = (Some (ValueError ''Invalid image data.''), new_writer 0)"
proof -
  have h: "take SOI_size (jpeg_bytes (Str (replicate 10 (CHR 0x00)))) \<noteq> SOI"
    by (simp add: SOI_size_2 SOI_def jpeg_bytes_def numeral_2_eq_2)
  then have "take SOI_size (jpeg_bytes (Str (replicate 10 (CHR 0x00)))) \<noteq> SOI
             \<or> length (jpeg_bytes (Str (replicate 10 (CHR 0x00)))) < min_jpeg_len
             \<or> (800::int) < 1 \<or> (600::int) < 1 \<or> (72::int) < 1" by simp
  from add_page_validation_error [OF this, of False "new_writer 0"] h show ?thesis by simp
qed

subsection \<open>C3: the length of the ledger\<close>

text \<open>
  C3, as stated (the ledger always has \<open>last_obj + 2\<close> entries), fails in the state that
  \<^verbatim>\<open>__init__\<close> leaves: the ledger has the two entries for identifiers 0 and 1, and the
  last allocated identifier is 1. \<^verbatim>\<open>_write_xref\<close> itself asserts \<open>last_obj + 1\<close>.
\<close>

theorem ledger_length_counterexample:
  "length (obj_offsets (new_writer 0)) \<noteq> last_obj (new_writer 0) + 2"
  by simp

text \<open>
  C3, amended: after initialisation and after every call of \<^verbatim>\<open>add_page\<close> or \<^verbatim>\<open>close\<close>, as
  long as every call so far has returned or has raised a validation error or the
  no-pages error of \<^verbatim>\<open>close\<close>, the ledger has \<open>last_obj + 1\<close> entries: one for every
  identifier from 0 to the last allocated one.
\<close>

theorem ledger_length:
  assumes "run calls (new_writer start) = (outs, s)" and "\<forall>r \<in> set outs. recoverable r"
  shows "length (obj_offsets s) = last_obj s + 1"
  using _ _ assms
proof (rule ledger_run)
  show "length (obj_offsets (new_writer start)) = last_obj (new_writer start) + 1" by simp
  show "file_open (new_writer start) \<longrightarrow> writer_inv start (new_writer start)"
    by (simp add: writer_inv_new)
qed

theorem ledger_length_witness:
  "fst (run [Close ''u'', Add_page (Str (replicate 10 (CHR 0x00))) 800 600 72 False,
             Add_page (Str example_jpeg) 800 600 150 False] (new_writer 0))
     = [Some (RuntimeError ''No pages added to PDF.''), Some (ValueError ''Invalid image data.''),
        None]
   \<and> length (obj_offsets
        (snd (run [Close ''u'', Add_page (Str (replicate 10 (CHR 0x00))) 800 600 72 False,
                   Add_page (Str example_jpeg) 800 600 150 False] (new_writer 0))))
     = last_obj
        (snd (run [Close ''u'', Add_page (Str (replicate 10 (CHR 0x00))) 800 600 72 False,
                   Add_page (Str example_jpeg) 800 600 150 False] (new_writer 0))) + 1"
proof -
  let ?calls = "[Close ''u'', Add_page (Str (replicate 10 (CHR 0x00))) 800 600 72 False,
                 Add_page (Str example_jpeg) 800 600 150 False]"
  have 1: "close ''u'' (new_writer 0)
             = (Some (RuntimeError ''No pages added to PDF.''), new_writer 0)"
    by (simp add: close_no_pages)
  have 2: "add_page (Str (replicate 10 (CHR 0x00))) 800 600 72 False (new_writer 0)
             = (Some (ValueError ''Invalid image data.''), new_writer 0)"
    by (simp add: add_page_eq jpeg_bytes_def SOI_def numeral_2_eq_2)
  have 3: "add_page (Str example_jpeg) 800 600 150 False (new_writer 0)
             = (None, added (jpeg_bytes (Str example_jpeg)) 800 600 (72 * 800 div 150)
                        (72 * 600 div 150) False (new_writer 0))"
    by (rule add_page_succeeds) (simp_all add: example_jpeg_valid)
  have outs: "fst (run ?calls (new_writer 0))
     = [Some (RuntimeError ''No pages added to PDF.''), Some (ValueError ''Invalid image data.''),
        None]"
    by (simp add: 1 2 3)
  have h1: "run ?calls (new_writer 0) = (fst (run ?calls (new_writer 0)), snd (run ?calls (new_writer 0)))"
    by simp
  have h2: "\<forall>r \<in> set (fst (run ?calls (new_writer 0))). recoverable r"
    by (simp only: outs) simp
  from ledger_length [OF h1 h2] outs show ?thesis by simp
qed

subsection \<open>C4: pixels to points\<close>

text \<open>
  C4, as stated (for every pixel count and resolution from 1 on, the dimension in points is
  \<open>floor (pixels / resolution * 72)\<close>), fails: the conversion is computed in binary64
  floats. For \<open>pixels = 2 ^ 53 + 1\<close> and \<open>resolution = 1\<close> the pixel count is rounded to
  \<open>2 ^ 53\<close> when it becomes a float, and the result is \<open>72 * 2 ^ 53\<close>, not
  \<open>72 * (2 ^ 53 + 1)\<close>.
\<close>

theorem pixels_to_points_floor_counterexample:
  "pixels_to_points 9007199254740993 1
     \<noteq> Inr \<lfloor>(of_int 9007199254740993 :: rat) / of_int 1 * 72\<rfloor>"
  by (simp add: pixels_to_points_2p53_1)

text \<open>
  C4, amended: for every pixel count and every resolution from 1 up to, but not including,
  \<open>2 ^ 43\<close>, the dimension in points computed by the writer is the floor of the exact
  quotient \<open>pixels / resolution * 72\<close>; the two rounding errors of the float computation
  never reach the next integer in that range. In particular 800 pixels at resolution 150
  give 384 points, and 1508 pixels at resolution 72 give 1508 points.
\<close>

theorem pixels_to_points_floor:
  "(1 \<le> pixels \<and> pixels < 2 ^ 43 \<and> 1 \<le> resolution \<and> resolution < 2 ^ 43 \<longrightarrow>
      pixels_to_points pixels resolution
        = Inr \<lfloor>(of_int pixels :: rat) / of_int resolution * 72\<rfloor>)
   \<and> pixels_to_points 800 150 = Inr 384
   \<and> pixels_to_points 1508 72 = Inr 1508"
proof -
  have "1 \<le> pixels \<and> pixels < 2 ^ 43 \<and> 1 \<le> resolution \<and> resolution < 2 ^ 43 \<longrightarrow>
          pixels_to_points pixels resolution
            = Inr \<lfloor>(of_int pixels :: rat) / of_int resolution * 72\<rfloor>"
    using pixels_to_points_exact [of pixels resolution] by (simp only: floor_points) blast
  moreover have "pixels_to_points 800 150 = Inr 384"
    using pixels_to_points_exact [of 800 150] by simp
  moreover have "pixels_to_points 1508 72 = Inr 1508"
    using pixels_to_points_exact [of 1508 72] by simp
  ultimately show ?thesis by (intro conjI)
qed

theorem pixels_to_points_floor_witness:
  "(1::int) \<le> 800 \<and> (800::int) < 2 ^ 43 \<and> (1::int) \<le> 150 \<and> (150::int) < 2 ^ 43
   \<and> pixels_to_points 800 150 = Inr \<lfloor>(of_int 800 :: rat) / of_int 150 * 72\<rfloor>
   \<and> \<lfloor>(of_int 800 :: rat) / of_int 150 * 72\<rfloor> = 384"
  using pixels_to_points_floor [of 800 150] by simp

subsection \<open>C5: the order of the pages\<close>

text \<open>
  C5: after \<open>N \<ge> 1\<close> \<^verbatim>\<open>add_page\<close> calls that all return, on a new writer, and
  \<^verbatim>\<open>close\<close>, the page-list object stands in the file at the offset recorded for
  identifier 1, its count is \<open>N\<close> and its child references are the identifiers
  \<open>2, 5, \<dots>, 3 * N - 1\<close> in this order; and the \<open>k\<close>-th of them, \<open>3 * k + 2\<close> (counting from
  0), is the identifier under which the \<open>k\<close>-th call wrote its page object (with the
  dimensions in points of that call), which refers to the image object \<open>3 * k + 3\<close> that
  holds the payload of that call. So the children are exactly the pages added, in the
  order of the calls.
\<close>

theorem page_list_order:
  assumes "pages \<noteq> []" and "fst (add_pages pages (new_writer start)) = None"
  shows "written_at (session start pages uid) (obj_offsets (session start pages uid) ! 1)
           (obj_text 1
              [''<</Type /Pages /Count '' @ str_nat (length pages) @ '' /Kids [''
               @ concat (map (\<lambda>k. str_nat (3 * k + 2) @ '' 0 R '') [0..<length pages])
               @ '']>>''])
    \<and> (\<forall>k < length pages. \<forall>j w h r g. pages ! k = (j, w, h, r, g) \<longrightarrow>
          (\<exists>wp hp. pixels_to_points w r = Inr wp \<and> pixels_to_points h r = Inr hp
             \<and> written_at (session start pages uid)
                  (obj_offsets (session start pages uid) ! (3 * k + 2))
                  (page_text (3 * k + 2) wp hp)
             \<and> written_at (session start pages uid)
                  (obj_offsets (session start pages uid) ! (3 * k + 3))
                  (image_text (3 * k + 3) w h g (jpeg_bytes j))))"
proof -
  let ?s1 = "snd (add_pages pages (new_writer start))"
  let ?S = "session start pages uid"
  note st = session_state [OF assms]
  have a: "add_pages pages (new_writer start) = (None, ?s1)"
    using assms(2) by (simp add: prod_eq_iff)
  have S: "?S = sealed uid ?s1" by (rule st(4))
  from st(1) have refs: "page_refs ?s1 = map (\<lambda>k. 3 * k + 2) [0..<length pages]"
    and len: "length (obj_offsets ?s1) = 3 * length pages + 2"
    by (simp_all add: writer_inv_def st(2))
  have "written_at ?S (obj_offsets ?S ! 1) (page_list_text (page_count ?s1) (page_refs ?s1))"
    unfolding S using len by (intro sealed_page_list) simp
  then have 1: "written_at ?S (obj_offsets ?S ! 1)
           (obj_text 1
              [''<</Type /Pages /Count '' @ str_nat (length pages) @ '' /Kids [''
               @ concat (map (\<lambda>k. str_nat (3 * k + 2) @ '' 0 R '') [0..<length pages])
               @ '']>>''])"
    by (simp add: page_list_text_def kids_def st(2) refs comp_def)
  have 2: "\<exists>wp hp. pixels_to_points w r = Inr wp \<and> pixels_to_points h r = Inr hp
             \<and> written_at ?S (obj_offsets ?S ! (3 * k + 2)) (page_text (3 * k + 2) wp hp)
             \<and> written_at ?S (obj_offsets ?S ! (3 * k + 3))
                  (image_text (3 * k + 3) w h g (jpeg_bytes j))"
    if k: "k < length pages" and p: "pages ! k = (j, w, h, r, g)" for k j w h r g
  proof -
    from pages_written [OF writer_inv_new a k p] obtain wp hp
      where c: "pixels_to_points w r = Inr wp" "pixels_to_points h r = Inr hp"
        and w2: "written_at ?s1 (obj_offsets ?s1 ! (3 * k + 2)) (page_text (3 * k + 2) wp hp)"
        and w3: "written_at ?s1 (obj_offsets ?s1 ! (3 * k + 3))
                   (image_text (3 * k + 3) w h g (jpeg_bytes j))"
      by auto
    have o2: "obj_offsets (sealed uid ?s1) ! (3 * k + 2) = obj_offsets ?s1 ! (3 * k + 2)"
      and o3: "obj_offsets (sealed uid ?s1) ! (3 * k + 3) = obj_offsets ?s1 ! (3 * k + 3)"
      using k len by (simp_all add: nth_append)
    show ?thesis
      using c w2 w3 unfolding S o2 o3 by (blast intro: sealed_keeps_written)
  qed
  from 1 2 show ?thesis by blast
qed

theorem page_list_order_witness:
  "[(Str example_jpeg, 800, 600, 150, False),
    (File \<lparr>content = example_jpeg, pos = 0\<rparr>, 572, 600, 96, True)] \<noteq> []
   \<and> fst (add_pages [(Str example_jpeg, 800, 600, 150, False),
                     (File \<lparr>content = example_jpeg, pos = 0\<rparr>, 572, 600, 96, True)]
            (new_writer 0)) = None
   \<and> written_at
        (session 0 [(Str example_jpeg, 800, 600, 150, False),
                    (File \<lparr>content = example_jpeg, pos = 0\<rparr>, 572, 600, 96, True)] ''u'')
        (obj_offsets
           (session 0 [(Str example_jpeg, 800, 600, 150, False),
                       (File \<lparr>content = example_jpeg, pos = 0\<rparr>, 572, 600, 96, True)] ''u'')
         ! 1)
        (obj_text 1 [''<</Type /Pages /Count 2 /Kids [2 0 R 5 0 R ]>>''])
   \<and> written_at
        (session 0 [(Str example_jpeg, 800, 600, 150, False),
                    (File \<lparr>content = example_jpeg, pos = 0\<rparr>, 572, 600, 96, True)] ''u'')
        (obj_offsets
           (session 0 [(Str example_jpeg, 800, 600, 150, False),
                       (File \<lparr>content = example_jpeg, pos = 0\<rparr>, 572, 600, 96, True)] ''u'')
         ! 2)
        (page_text 2 384 288)
   \<and> written_at
        (session 0 [(Str example_jpeg, 800, 600, 150, False),
                    (File \<lparr>content = example_jpeg, pos = 0\<rparr>, 572, 600, 96, True)] ''u'')
        (obj_offsets
           (session 0 [(Str example_jpeg, 800, 600, 150, False),
                       (File \<lparr>content = example_jpeg, pos = 0\<rparr>, 572, 600, 96, True)] ''u'')
         ! 3)
        (image_text 3 800 600 False example_jpeg)
   \<and> written_at
        (session 0 [(Str example_jpeg, 800, 600, 150, False),
                    (File \<lparr>content = example_jpeg, pos = 0\<rparr>, 572, 600, 96, True)] ''u'')
        (obj_offsets
           (session 0 [(Str example_jpeg, 800, 600, 150, False),
                       (File \<lparr>content = example_jpeg, pos = 0\<rparr>, 572, 600, 96, True)] ''u'')
         ! 5)
        (page_text 5 429 450)
   \<and> written_at
        (session 0 [(Str example_jpeg, 800, 600, 150, False),
                    (File \<lparr>content = example_jpeg, pos = 0\<rparr>, 572, 600, 96, True)] ''u'')
        (obj_offsets
           (session 0 [(Str example_jpeg, 800, 600, 150, False),
                       (File \<lparr>content = example_jpeg, pos = 0\<rparr>, 572, 600, 96, True)] ''u'')
         ! 6)
        (image_text 6 572 600 True example_jpeg)"
proof -
  let ?pages = "[(Str example_jpeg, 800, 600, 150, False),
                 (File \<lparr>content = example_jpeg, pos = 0\<rparr>, 572, 600, 96, True)]"
  have h1: "?pages \<noteq> []" by simp
  have h2: "fst (add_pages ?pages (new_writer 0)) = None" by (rule example_session_two_pages)
  have p: "pixels_to_points 800 150 = Inr 384" "pixels_to_points 600 150 = Inr 288"
    "pixels_to_points 572 96 = Inr 429" "pixels_to_points 600 96 = Inr 450"
    using pixels_to_points_exact [of 800 150] pixels_to_points_exact [of 600 150]
      pixels_to_points_exact [of 572 96] pixels_to_points_exact [of 600 96] by simp_all
  have n: "str_nat (Suc (Suc 0)) = ''2''" "str_nat 5 = ''5''"
    by (simp_all add: str_nat.simps digit_char_def)
  have u: "[0..<2] = [0, 1]" by (simp add: upt_rec)
  note t = page_list_order [OF h1 h2, of "''u''"]
  from t [THEN conjunct1] have a: "written_at (session 0 ?pages ''u'') (obj_offsets (session 0 ?pages ''u'') ! 1)
        (obj_text 1 [''<</Type /Pages /Count 2 /Kids [2 0 R 5 0 R ]>>''])"
    by (simp add: n u)
  note b = t [THEN conjunct2, rule_format]
  from b [of 0 "Str example_jpeg" 800 600 150 False]
  have c: "written_at (session 0 ?pages ''u'') (obj_offsets (session 0 ?pages ''u'') ! 2)
             (page_text 2 384 288)
    \<and> written_at (session 0 ?pages ''u'') (obj_offsets (session 0 ?pages ''u'') ! 3)
             (image_text 3 800 600 False example_jpeg)"
    by (simp add: p jpeg_bytes_def numeral_2_eq_2)
  from b [of 1 "File \<lparr>content = example_jpeg, pos = 0\<rparr>" 572 600 96 True]
  have d: "written_at (session 0 ?pages ''u'') (obj_offsets (session 0 ?pages ''u'') ! 5)
             (page_text 5 429 450)
    \<and> written_at (session 0 ?pages ''u'') (obj_offsets (session 0 ?pages ''u'') ! 6)
             (image_text 6 572 600 True example_jpeg)"
    by (simp add: p jpeg_bytes_def)
  from h1 h2 a c d show ?thesis by (intro conjI) simp_all
qed

subsection \<open>C6: streamed and in-memory payloads\<close>

text \<open>
  C6: \<^verbatim>\<open>add_page\<close> with the payload as a readable file-like object (at any position; it
  is rewound) and with the same bytes as a string raise the same exception or none, and
  leave the same state, the bytes written to the file included. The chunked copy writes
  exactly the bytes of the source (\<open>copy_chunks_open\<close>).
\<close>

theorem stream_and_block_agree:
  "add_page (File f) width_px height_px resolution grayscale s
     = add_page (Str (content f)) width_px height_px resolution grayscale s"
proof -
  have "jpeg_bytes (File f) = jpeg_bytes (Str (content f))"
    by (simp add: jpeg_bytes_def)
  then show ?thesis by (simp only: add_page_eq)
qed

subsection \<open>C7: the lines of the index\<close>

text \<open>
  C7, as stated (every line of the index gives a 10-digit offset), fails for offsets of
  \<open>10 ^ 10\<close> and more: \<^verbatim>\<open>'%010d'\<close> pads to ten digits and never truncates. For a file
  that stands at position \<open>10 ^ 10\<close> when the writer is created, the sentinel entry of the
  index is written with eleven digits.
\<close>

theorem xref_lines_counterexample:
  "fst (add_pages [(Str example_jpeg, 800, 600, 150, False)] (new_writer 10000000000)) = None
   \<and> length (zero_pad 10
        (obj_offsets (session 10000000000 [(Str example_jpeg, 800, 600, 150, False)] ''u'') ! 0))
     = 11"
  using session_offsets(2) [OF _ example_session, where start = 10000000000 and uid = "''u''"]
  by (simp add: example_session length_zero_pad str_nat_ten_billion)

text \<open>
  C7, amended: in the index emitted at \<^verbatim>\<open>close\<close> (after \<open>N \<ge> 1\<close> pages on a new writer),
  after the two lines \<^verbatim>\<open>xref\<close> and \<^verbatim>\<open>0 3N+3\<close> there is one line per ledger entry, in
  identifier order, each giving the recorded offset padded with zeros to at least ten
  digits, the generation number 65535 and the flag \<^verbatim>\<open>f\<close> for identifier 0 and exactly for
  it, and the generation number 00000 and the flag \<^verbatim>\<open>n\<close> for every other identifier. The
  offset field has exactly ten digits if and only if the offset is below \<open>10 ^ 10\<close>.
\<close>

theorem xref_lines:
  assumes "pages \<noteq> []" and "fst (add_pages pages (new_writer start)) = None"
  shows "drop (xref_offset (session start pages uid) - start)
           (file_data (session start pages uid))
         = line ''xref'' @ line (''0 '' @ str_nat (3 * length pages + 3))
           @ concat (map (\<lambda>i. line (zero_pad 10 (obj_offsets (session start pages uid) ! i)
                                   @ (if i = 0 then '' 65535 f '' else '' 00000 n '')))
                       [0..<3 * length pages + 3])
           @ trailer_text (3 * length pages + 3) (3 * length pages + 2)
               (xref_offset (session start pages uid)) uid
    \<and> (\<forall>i < 3 * length pages + 3.
          (length (zero_pad 10 (obj_offsets (session start pages uid) ! i)) = 10)
          = (obj_offsets (session start pages uid) ! i < 10 ^ 10))"
proof -
  let ?S = "session start pages uid"
  note so = session_offsets [OF assms, where uid = uid]
  have ne: "obj_offsets ?S ! i \<noteq> start" if "1 \<le> i" "i < length (obj_offsets ?S)" for i
  proof -
    from that have "start < obj_offsets ?S ! i" using so(3) [of i] by (simp add: so(1))
    then show ?thesis by simp
  qed
  have "map (xref_line start) (obj_offsets ?S)
        = map (\<lambda>i. line (zero_pad 10 (obj_offsets ?S ! i)
                          @ (if i = 0 then '' 65535 f '' else '' 00000 n '')))
            [0..<length (obj_offsets ?S)]"
    using so(2) ne by (rule index_lines)
  then have "xref_text (3 * length pages + 3) start (obj_offsets ?S)
        = line ''xref'' @ line (''0 '' @ str_nat (3 * length pages + 3))
          @ concat (map (\<lambda>i. line (zero_pad 10 (obj_offsets ?S ! i)
                                  @ (if i = 0 then '' 65535 f '' else '' 00000 n '')))
                      [0..<3 * length pages + 3])"
    by (simp only: xref_text_def so(1))
  with so(4) show ?thesis by (simp add: zero_pad_ten_digits)
qed

theorem xref_lines_witness:
  "[(Str example_jpeg, 800, 600, 150, False)] \<noteq> []
   \<and> fst (add_pages [(Str example_jpeg, 800, 600, 150, False)] (new_writer 0)) = None
   \<and> (0::nat) < 3 * length [(Str example_jpeg, 800, 600, 150, False)] + 3
   \<and> (length (zero_pad 10
         (obj_offsets (session 0 [(Str example_jpeg, 800, 600, 150, False)] ''u'') ! 0)) = 10)
      = (obj_offsets (session 0 [(Str example_jpeg, 800, 600, 150, False)] ''u'') ! 0 < 10 ^ 10)"
proof -
  have h1: "[(Str example_jpeg, 800, 600, 150, False)] \<noteq> []" by simp
  from xref_lines [OF h1 example_session, of 0 "''u''"] h1 example_session [of 0]
  show ?thesis by simp
qed

subsection \<open>C8: calls on a sealed writer\<close>

text \<open>
  C8, as stated (after \<^verbatim>\<open>close\<close> every further call, any \<^verbatim>\<open>add_page\<close> with any arguments
  included, fails with the closed-resource error), fails: \<^verbatim>\<open>add_page\<close> validates its
  arguments before it touches the file, so on a sealed writer a payload of ten zero bytes
  raises \<^verbatim>\<open>ValueError('Invalid image data.')\<close>.
\<close>

theorem sealed_writer_counterexample:
  "\<not> file_open (session 0 [(Str example_jpeg, 800, 600, 150, False)] ''u'')
   \<and> fst (add_page (Str (replicate 10 (CHR 0x00))) 800 600 72 False
             (session 0 [(Str example_jpeg, 800, 600, 150, False)] ''u''))
       = Some (ValueError ''Invalid image data.'')"
  using session_closed(1) [OF _ example_session, where start = 0 and uid = "''u''"]
  by (simp add: add_page_eq jpeg_bytes_def SOI_def numeral_2_eq_2)

text \<open>
  C8, amended: after \<^verbatim>\<open>close\<close> has returned, and after any further calls whatever, no call
  on the writer returns: every one of those calls raised, a further \<^verbatim>\<open>close\<close> raises
  \<^verbatim>\<open>RuntimeError('PDF closed.')\<close>, every \<^verbatim>\<open>add_page\<close> raises, and an \<^verbatim>\<open>add_page\<close> whose
  arguments pass validation and whose dimensions convert to points raises
  \<^verbatim>\<open>RuntimeError('PDF closed.')\<close>.
\<close>

theorem sealed_writer_rejects_calls:
  assumes "fst (close uid s0) = None" and "run calls (snd (close uid s0)) = (outs, s)"
  shows "(\<forall>r \<in> set outs. r \<noteq> None)
    \<and> fst (close uid' s) = Some (RuntimeError ''PDF closed.'')
    \<and> fst (add_page jpegdata width_px height_px resolution grayscale s) \<noteq> None
    \<and> (take SOI_size (jpeg_bytes jpegdata) = SOI \<and> min_jpeg_len \<le> length (jpeg_bytes jpegdata)
        \<and> 1 \<le> width_px \<and> 1 \<le> height_px \<and> 1 \<le> resolution
        \<and> (\<exists>width_pt. pixels_to_points width_px resolution = Inr width_pt)
        \<and> (\<exists>height_pt. pixels_to_points height_px resolution = Inr height_pt)
        \<longrightarrow> fst (add_page jpegdata width_px height_px resolution grayscale s)
              = Some (RuntimeError ''PDF closed.''))"
proof -
  have c: "close uid s0 = (None, snd (close uid s0))"
    using assms(1) by (simp add: prod_eq_iff)
  have s1: "snd (close uid s0) = sealed uid s0" and p: "1 \<le> page_count s0"
    using close_None [OF c] by simp_all
  have "\<not> file_open (snd (close uid s0))" "1 \<le> page_count (snd (close uid s0))"
    using p by (simp_all add: s1)
  from run_closed [OF this assms(2)]
  have outs: "\<forall>r \<in> set outs. r \<noteq> None" and cl: "\<not> file_open s" and n: "1 \<le> page_count s"
    by simp_all
  have "fst (close uid' s) = Some (RuntimeError ''PDF closed.'')"
    using close_closed [OF n cl, of uid'] by simp
  moreover have "fst (add_page jpegdata width_px height_px resolution grayscale s) \<noteq> None"
    using cl by (auto simp: add_page_eq split: sum.splits)
  moreover have "take SOI_size (jpeg_bytes jpegdata) = SOI
        \<and> min_jpeg_len \<le> length (jpeg_bytes jpegdata)
        \<and> 1 \<le> width_px \<and> 1 \<le> height_px \<and> 1 \<le> resolution
        \<and> (\<exists>width_pt. pixels_to_points width_px resolution = Inr width_pt)
        \<and> (\<exists>height_pt. pixels_to_points height_px resolution = Inr height_pt)
        \<longrightarrow> fst (add_page jpegdata width_px height_px resolution grayscale s)
              = Some (RuntimeError ''PDF closed.'')"
    using cl by (auto simp: add_page_eq SOI_size_2 min_jpeg_len_def)
  ultimately show ?thesis using outs by (intro conjI)
qed

theorem sealed_writer_rejects_calls_witness:
  "fst (close ''u'' (snd (add_pages [(Str example_jpeg, 800, 600, 150, False)] (new_writer 0))))
     = None
   \<and> fst (close ''v'' (snd (run [Close ''w'', Add_page (Str example_jpeg) 800 600 150 False]
        (snd (close ''u''
           (snd (add_pages [(Str example_jpeg, 800, 600, 150, False)] (new_writer 0))))))))
       = Some (RuntimeError ''PDF closed.'')"
proof -
  let ?s0 = "snd (add_pages [(Str example_jpeg, 800, 600, 150, False)] (new_writer 0))"
  let ?calls = "[Close ''w'', Add_page (Str example_jpeg) 800 600 150 False]"
  have h1: "fst (close ''u'' ?s0) = None"
    using session_state(3) [OF _ example_session, where start = 0 and uid = "''u''"] by simp
  have h2: "run ?calls (snd (close ''u'' ?s0))
              = (fst (run ?calls (snd (close ''u'' ?s0))), snd (run ?calls (snd (close ''u'' ?s0))))"
    by simp
  from sealed_writer_rejects_calls [OF h1 h2, of "''v''"] h1 show ?thesis by simp
qed

subsection \<open>C9: closing an empty document\<close>

text \<open>
  C9: \<^verbatim>\<open>close\<close> on a writer with page count 0 raises
  \<^verbatim>\<open>RuntimeError('No pages added to PDF.')\<close> and changes nothing, and \<^verbatim>\<open>close\<close> returns
  only from a state with page count at least 1.
\<close>

theorem close_needs_a_page:
  "(page_count s < 1 \<longrightarrow> close uid s = (Some (RuntimeError ''No pages added to PDF.''), s))
   \<and> (fst (close uid s) = None \<longrightarrow> 1 \<le> page_count s)"
proof (intro conjI impI)
  assume "page_count s < 1"
  then show "close uid s = (Some (RuntimeError ''No pages added to PDF.''), s)"
    by (rule close_no_pages)
next
  assume "fst (close uid s) = None"
  then have "close uid s = (None, snd (close uid s))" by (simp add: prod_eq_iff)
  then show "1 \<le> page_count s" by (rule close_None(2))
qed

theorem close_needs_a_page_witness:
  "page_count (new_writer 0) < 1
   \<and> close ''u'' (new_writer 0) = (Some (RuntimeError ''No pages added to PDF.''), new_writer 0)
   \<and> fst (close ''u'' (snd (add_pages [(Str example_jpeg, 800, 600, 150, False)] (new_writer 0))))
       = None
   \<and> 1 \<le> page_count (snd (add_pages [(Str example_jpeg, 800, 600, 150, False)] (new_writer 0)))"
proof -
  let ?s1 = "snd (add_pages [(Str example_jpeg, 800, 600, 150, False)] (new_writer 0))"
  have "fst (close ''u'' ?s1) = None"
    using session_state(3) [OF _ example_session, where start = 0 and uid = "''u''"] by simp
  with close_needs_a_page [of "new_writer 0" "''u''"] close_needs_a_page [of ?s1 "''u''"]
  show ?thesis by simp
qed

subsection \<open>C10: what a failed call on a sealed writer leaves behind\<close>

text \<open>
  C10, as stated (on a closed writer, \<^verbatim>\<open>add_page\<close> with a payload and geometry that pass
  validation raises the closed-resource error), fails for a geometry that passes
  validation but whose conversion to points overflows the floats: for a width of
  \<open>2 ^ 1024\<close> pixels the call raises \<^verbatim>\<open>OverflowError\<close>.
\<close>

theorem closed_add_page_counterexample:
  "\<not> file_open (session 0 [(Str example_jpeg, 800, 600, 150, False)] ''u'')
   \<and> take SOI_size (jpeg_bytes (Str example_jpeg)) = SOI
   \<and> min_jpeg_len \<le> length (jpeg_bytes (Str example_jpeg))
   \<and> fst (add_page (Str example_jpeg) (2 ^ 1024) 1 1 False
             (session 0 [(Str example_jpeg, 800, 600, 150, False)] ''u''))
       = Some OverflowError"
proof -
  let ?s = "session 0 [(Str example_jpeg, 800, 600, 150, False)] ''u''"
  have "add_page (Str example_jpeg) (2 ^ 1024) 1 1 False ?s = (Some OverflowError, allocated ?s)"
    by (rule add_page_conversion_error [OF example_jpeg_valid _ _ _ pixels_to_points_overflow])
       simp_all
  then show ?thesis
    using session_closed(1) [OF _ example_session, where start = 0 and uid = "''u''"]
    by (simp add: example_jpeg_valid SOI_size_2 min_jpeg_len_def)
qed

text \<open>
  C10, amended: on a closed writer, \<^verbatim>\<open>add_page\<close> with a payload and geometry that pass
  validation and whose width and height convert to points raises
  \<^verbatim>\<open>RuntimeError('PDF closed.')\<close>, and the state it leaves has the page count incremented by
  1, the new page identifier appended to the page references and the last allocated
  identifier advanced by 3; nothing else has changed.
\<close>

theorem closed_add_page_allocates:
  assumes "\<not> file_open s"
    and "take SOI_size (jpeg_bytes jpegdata) = SOI"
    and "min_jpeg_len \<le> length (jpeg_bytes jpegdata)"
    and "1 \<le> width_px" and "1 \<le> height_px" and "1 \<le> resolution"
    and "pixels_to_points width_px resolution = Inr width_pt"
    and "pixels_to_points height_px resolution = Inr height_pt"
  shows "add_page jpegdata width_px height_px resolution grayscale s =
     (Some (RuntimeError ''PDF closed.''),
      s\<lparr>last_obj := last_obj s + 3,
        page_refs := page_refs s @ [last_obj s + 1],
        page_count := page_count s + 1\<rparr>)"
  using assms by (simp add: add_page_eq SOI_size_2 min_jpeg_len_def allocated_def)

theorem closed_add_page_allocates_witness:
  "\<not> file_open (session 0 [(Str example_jpeg, 800, 600, 150, False)] ''u'')
   \<and> take SOI_size (jpeg_bytes (Str example_jpeg)) = SOI
   \<and> min_jpeg_len \<le> length (jpeg_bytes (Str example_jpeg))
   \<and> pixels_to_points 800 150 = Inr 384 \<and> pixels_to_points 600 150 = Inr 288
   \<and> fst (add_page (Str example_jpeg) 800 600 150 False
             (session 0 [(Str example_jpeg, 800, 600, 150, False)] ''u''))
       = Some (RuntimeError ''PDF closed.'')
   \<and> page_count (snd (add_page (Str example_jpeg) 800 600 150 False
                         (session 0 [(Str example_jpeg, 800, 600, 150, False)] ''u''))) = 2"
proof -
  let ?s = "session 0 [(Str example_jpeg, 800, 600, 150, False)] ''u''"
  have c: "\<not> file_open ?s" and n: "page_count ?s = 1"
    using session_closed [OF _ example_session, where start = 0 and uid = "''u''"] by simp_all
  have v: "take SOI_size (jpeg_bytes (Str example_jpeg)) = SOI"
    "min_jpeg_len \<le> length (jpeg_bytes (Str example_jpeg))"
    by (simp_all add: example_jpeg_valid SOI_size_2 min_jpeg_len_def)
  have p: "pixels_to_points 800 150 = Inr 384" "pixels_to_points 600 150 = Inr 288"
    using pixels_to_points_exact [of 800 150] pixels_to_points_exact [of 600 150] by simp_all
  from closed_add_page_allocates [OF c v _ _ _ p, of False] c v p n show ?thesis by simp
qed

end
